theory Spec2Isabelle
  imports Main
begin

section \<open>Text and regular expressions\<close>

text \<open>
  The program (\<^verbatim>\<open>src/extension.ts\<close>) works on JavaScript strings, which are sequences
  of UTF-16 code units, and none of its regular expressions has the \<^verbatim>\<open>u\<close> flag, so
  every pattern sees one code unit at a time. A text is a list of code units, each given
  by its number; a language identifier is a text too.
\<close>

type_synonym code_unit = nat
type_synonym jstring = "code_unit list"

definition js :: "string \<Rightarrow> jstring" where
  \<comment> \<open>an ASCII literal of the source, as code units\<close>
  "js s = map of_char s"

text \<open>
  Character classes as the source writes them: a class atom is one code unit, a range
  \<^verbatim>\<open>a-b\<close>, \<^verbatim>\<open>\s\<close> or \<^verbatim>\<open>\S\<close>. ECMAScript's \<^verbatim>\<open>\s\<close> is WhiteSpace plus
  LineTerminator; the dot excludes the line terminators unless the \<^verbatim>\<open>s\<close> flag is set.
\<close>

definition isLineTerminator :: "code_unit \<Rightarrow> bool" where
  "isLineTerminator c = (c = 0x0A \<or> c = 0x0D \<or> c = 0x2028 \<or> c = 0x2029)"

definition isWhiteSpace :: "code_unit \<Rightarrow> bool" where
  \<comment> \<open>what \<^verbatim>\<open>\s\<close> matches\<close>
  "isWhiteSpace c =
     (c = 0x09 \<or> c = 0x0A \<or> c = 0x0B \<or> c = 0x0C \<or> c = 0x0D \<or> c = 0x20 \<or> c = 0xA0
      \<or> c = 0x1680 \<or> (0x2000 \<le> c \<and> c \<le> 0x200A) \<or> c = 0x2028 \<or> c = 0x2029
      \<or> c = 0x202F \<or> c = 0x205F \<or> c = 0x3000 \<or> c = 0xFEFF)"

datatype atom = Single code_unit | Range code_unit code_unit | WS | NonWS

datatype cls =
    Ch code_unit       \<comment> \<open>a literal character\<close>
  | Dot                \<comment> \<open>\<^verbatim>\<open>.\<close>\<close>
  | Cls "atom list"    \<comment> \<open>\<^verbatim>\<open>[...]\<close>, and \<^verbatim>\<open>\s\<close> as \<open>Cls [WS]\<close>\<close>
  | NCls "atom list"   \<comment> \<open>\<^verbatim>\<open>[^...]\<close>\<close>

fun atom_match :: "atom \<Rightarrow> code_unit \<Rightarrow> bool" where
  "atom_match (Single a) c = (c = a)"
| "atom_match (Range a b) c = (a \<le> c \<and> c \<le> b)"
| "atom_match WS c = isWhiteSpace c"
| "atom_match NonWS c = (\<not> isWhiteSpace c)"

fun cls_match :: "bool \<Rightarrow> cls \<Rightarrow> code_unit \<Rightarrow> bool" where
  "cls_match dotAll (Ch a) c = (c = a)"
| "cls_match dotAll Dot c = (dotAll \<or> \<not> isLineTerminator c)"
| "cls_match dotAll (Cls as) c = list_ex (\<lambda>a. atom_match a c) as"
| "cls_match dotAll (NCls as) c = (\<not> list_ex (\<lambda>a. atom_match a c) as)"

text \<open>
  Every quantifier in the source's patterns applies to a single character or class, and
  no pattern has an alternative or a group, so a pattern is a sequence of nodes: a
  character, a quantified character (\<^verbatim>\<open>*\<close>, \<^verbatim>\<open>*?\<close>, \<^verbatim>\<open>+\<close>, \<^verbatim>\<open>?\<close>), or an
  assertion (\<^verbatim>\<open>^\<close>, \<^verbatim>\<open>$\<close>).
\<close>

datatype node =
    Atom cls
  | Star cls       \<comment> \<open>greedy \<^verbatim>\<open>*\<close>\<close>
  | LazyStar cls   \<comment> \<open>\<^verbatim>\<open>*?\<close>\<close>
  | Plus cls       \<comment> \<open>greedy \<^verbatim>\<open>+\<close>\<close>
  | Opt cls        \<comment> \<open>greedy \<^verbatim>\<open>?\<close>\<close>
  | Bol            \<comment> \<open>\<^verbatim>\<open>^\<close>\<close>
  | Eol            \<comment> \<open>\<^verbatim>\<open>$\<close>\<close>

definition lit :: "string \<Rightarrow> node list" where
  "lit s = map (\<lambda>c. Atom (Ch (of_char c))) s"

abbreviation ws :: cls where
  "ws \<equiv> Cls [WS]"

abbreviation anyChar :: cls where
  \<comment> \<open>\<^verbatim>\<open>[\s\S]\<close>\<close>
  "anyChar \<equiv> Cls [WS, NonWS]"

text \<open>
  The backtracking matcher of ECMAScript, for these patterns. \<open>matchFrom ml da ns p xs\<close>
  matches the nodes \<open>ns\<close> at a position whose preceding code unit is \<open>p\<close> (\<open>None\<close> at
  the start of the input) and whose remaining input is \<open>xs\<close>; it returns the length of
  the match the engine finds first, or \<open>None\<close>. \<open>ml\<close> and \<open>da\<close> are the \<^verbatim>\<open>m\<close> and
  \<^verbatim>\<open>s\<close> flags. A greedy quantifier tries one more character before it tries the rest
  of the pattern, a lazy one tries the rest of the pattern first.
\<close>

fun matchFrom :: "bool \<Rightarrow> bool \<Rightarrow> node list \<Rightarrow> code_unit option \<Rightarrow> jstring \<Rightarrow> nat option" where
  "matchFrom ml da [] p xs = Some 0"
| "matchFrom ml da (Atom c # ns) p xs =
     (case xs of
        [] \<Rightarrow> None
      | x # xs' \<Rightarrow>
          if cls_match da c x then map_option Suc (matchFrom ml da ns (Some x) xs') else None)"
| "matchFrom ml da (Star c # ns) p xs =
     (case xs of
        [] \<Rightarrow> matchFrom ml da ns p []
      | x # xs' \<Rightarrow>
          if cls_match da c x
          then (case matchFrom ml da (Star c # ns) (Some x) xs' of
                  Some n \<Rightarrow> Some (Suc n)
                | None \<Rightarrow> matchFrom ml da ns p (x # xs'))
          else matchFrom ml da ns p (x # xs'))"
| "matchFrom ml da (LazyStar c # ns) p xs =
     (case matchFrom ml da ns p xs of
        Some n \<Rightarrow> Some n
      | None \<Rightarrow>
          (case xs of
             [] \<Rightarrow> None
           | x # xs' \<Rightarrow>
               if cls_match da c x
               then map_option Suc (matchFrom ml da (LazyStar c # ns) (Some x) xs')
               else None))"
| "matchFrom ml da (Plus c # ns) p xs =
     (case xs of
        [] \<Rightarrow> None
      | x # xs' \<Rightarrow>
          if cls_match da c x
          then map_option Suc (matchFrom ml da (Star c # ns) (Some x) xs')
          else None)"
| "matchFrom ml da (Opt c # ns) p xs =
     (case xs of
        [] \<Rightarrow> matchFrom ml da ns p []
      | x # xs' \<Rightarrow>
          if cls_match da c x
          then (case matchFrom ml da ns (Some x) xs' of
                  Some n \<Rightarrow> Some (Suc n)
                | None \<Rightarrow> matchFrom ml da ns p (x # xs'))
          else matchFrom ml da ns p (x # xs'))"
| "matchFrom ml da (Bol # ns) p xs =
     (case p of
        None \<Rightarrow> matchFrom ml da ns p xs
      | Some c \<Rightarrow> if ml \<and> isLineTerminator c then matchFrom ml da ns p xs else None)"
| "matchFrom ml da (Eol # ns) p xs =
     (case xs of
        [] \<Rightarrow> matchFrom ml da ns p xs
      | x # xs' \<Rightarrow> if ml \<and> isLineTerminator x then matchFrom ml da ns p xs else None)"

declare matchFrom.simps [simp del]

text \<open>
  The engine tries the start positions from left to right. \<open>search\<close> returns how many
  code units it skipped before the first position where the pattern matches, and the
  length of the match there.
\<close>

fun search :: "bool \<Rightarrow> bool \<Rightarrow> node list \<Rightarrow> code_unit option \<Rightarrow> jstring \<Rightarrow> (nat \<times> nat) option" where
  "search ml da ns p [] =
     (case matchFrom ml da ns p [] of Some n \<Rightarrow> Some (0, n) | None \<Rightarrow> None)"
| "search ml da ns p (x # xs) =
     (case matchFrom ml da ns p (x # xs) of
        Some n \<Rightarrow> Some (0, n)
      | None \<Rightarrow> map_option (\<lambda>(k, n). (Suc k, n)) (search ml da ns (Some x) xs))"

section \<open>Regular expression objects and the string methods\<close>

text \<open>
  A \<^verbatim>\<open>RegExp\<close> object: its pattern, its flags and its mutable match cursor
  \<^verbatim>\<open>lastIndex\<close>. A regular expression literal creates a new object, with cursor 0, each
  time it is evaluated.
\<close>

record regexp =
  source :: "node list"
  global :: bool
  multiline :: bool
  dotAll :: bool
  lastIndex :: nat

definition RegExp :: "node list \<Rightarrow> string \<Rightarrow> regexp" where
  "RegExp ns flags =
     \<lparr>source = ns, global = (CHR ''g'' \<in> set flags), multiline = (CHR ''m'' \<in> set flags),
      dotAll = (CHR ''s'' \<in> set flags), lastIndex = 0\<rparr>"

text \<open>
  The built-in exec, started at cursor \<open>li\<close>: no match beyond the end of the string,
  otherwise the first match at or after \<open>li\<close>, as (index, length).
\<close>

definition before :: "jstring \<Rightarrow> nat \<Rightarrow> code_unit option" where
  \<comment> \<open>the code unit in front of position \<open>i\<close>, if there is one\<close>
  "before s i = (if i = 0 then None else Some (s ! (i - 1)))"

definition exec_at :: "regexp \<Rightarrow> jstring \<Rightarrow> nat \<Rightarrow> (nat \<times> nat) option" where
  "exec_at r s li =
     (if li > length s then None
      else map_option (\<lambda>(k, n). (li + k, n))
             (search (multiline r) (dotAll r) (source r) (before s li) (drop li s)))"

text \<open>
  \<^verbatim>\<open>regex.exec(s)\<close>: a global expression starts at its cursor and moves it to the end of
  the match, or back to 0 when nothing matches; any other expression starts at 0 and
  leaves the cursor alone.
\<close>

definition exec :: "regexp \<Rightarrow> jstring \<Rightarrow> (nat \<times> nat) option \<times> regexp" where
  "exec r s =
     (case exec_at r s (if global r then lastIndex r else 0) of
        None \<Rightarrow> (None, if global r then r\<lparr>lastIndex := 0\<rparr> else r)
      | Some (i, n) \<Rightarrow> (Some (i, n), if global r then r\<lparr>lastIndex := i + n\<rparr> else r))"

text \<open>
  \<^verbatim>\<open>s.replace(regex, repl)\<close> for a replacement without \<^verbatim>\<open>$\<close>. With the \<^verbatim>\<open>g\<close> flag
  the cursor starts at 0 and every match is replaced; after an empty match the cursor
  advances by one. \<open>nsp\<close> is the specification's nextSourcePosition, the end of the
  text already copied. Without the flag only the first match is replaced.
\<close>

function replaceAllFrom :: "regexp \<Rightarrow> jstring \<Rightarrow> jstring \<Rightarrow> nat \<Rightarrow> nat \<Rightarrow> jstring" where
  "replaceAllFrom r repl s li nsp =
     (case exec_at r s li of
        None \<Rightarrow> drop nsp s
      | Some (i, n) \<Rightarrow>
          (if nsp \<le> i
           then take (i - nsp) (drop nsp s) @ repl
                  @ replaceAllFrom r repl s (if n = 0 then i + 1 else i + n) (i + n)
           else replaceAllFrom r repl s (if n = 0 then i + 1 else i + n) nsp))"
  by pat_completeness auto
termination
  by (relation "measure (\<lambda>(r, repl, s, li, nsp). Suc (length s) - li)")
     (auto simp: exec_at_def split: if_splits)

declare replaceAllFrom.simps [simp del]

definition replace :: "jstring \<Rightarrow> regexp \<Rightarrow> jstring \<Rightarrow> jstring" where
  "replace s r repl =
     (if global r then replaceAllFrom r repl s 0 0
      else (case exec_at r s 0 of
              None \<Rightarrow> s
            | Some (i, n) \<Rightarrow> take i s @ repl @ drop (i + n) s))"

section \<open>The clean path\<close>

text \<open>An entry of a pattern table: the expression and the languages it applies to.\<close>

record pattern =
  regex :: regexp
  languages :: "jstring list option"

definition applies :: "pattern \<Rightarrow> jstring \<Rightarrow> bool" where
  \<comment> \<open>\<^verbatim>\<open>!pattern.languages || pattern.languages.includes(languageId)\<close>\<close>
  "applies pt languageId =
     (case languages pt of None \<Rightarrow> True | Some ls \<Rightarrow> languageId \<in> set ls)"

definition cStyle :: "jstring list" where
  "cStyle = map js [''javascript'', ''typescript'', ''java'', ''cpp'', ''c'', ''csharp'',
                    ''go'', ''rust'', ''dart'']"

definition hashStyle :: "jstring list" where
  "hashStyle = map js [''python'', ''ruby'', ''perl'', ''yaml'', ''dockerfile'',
                       ''shellscript'']"

abbreviation notCh :: "code_unit \<Rightarrow> cls" where
  "notCh c \<equiv> NCls [Single c]"

definition removalPatterns :: "pattern list" where
  \<comment> \<open>the table \<^verbatim>\<open>patterns\<close> of \<^verbatim>\<open>removePatterns\<close>; 0x29 is \<^verbatim>\<open>)\<close>, 0x3B is \<^verbatim>\<open>;\<close>,
      0x27 and 0x22 are the single and the double quote\<close>
  "removalPatterns =
    [\<lparr>regex = RegExp ([Bol, Star ws] @ lit ''console.log('' @
                       [Star (notCh 0x29), Atom (Ch 0x29), Opt (Ch 0x3B), Star ws, Eol]) ''gm'',
      languages = Some (map js [''javascript'', ''typescript''])\<rparr>,
     \<lparr>regex = RegExp ([Bol, Star ws] @ lit ''print('' @
                       [Star (notCh 0x29), Atom (Ch 0x29), Opt (Ch 0x3B), Star ws, Eol]) ''gm'',
      languages = Some (map js [''python''])\<rparr>,
     \<lparr>regex = RegExp ([Bol, Star ws] @ lit ''printf('' @
                       [Star (notCh 0x29), Atom (Ch 0x29), Opt (Ch 0x3B), Star ws, Eol]) ''gm'',
      languages = Some (map js [''c'', ''cpp''])\<rparr>,
     \<lparr>regex = RegExp ([Bol, Star ws] @ lit ''std::cout'' @ [Star ws] @ lit ''<<'' @
                       [Star (notCh 0x3B), Atom (Ch 0x3B), Star ws, Eol]) ''gm'',
      languages = Some (map js [''cpp''])\<rparr>,
     \<lparr>regex = RegExp ([Bol, Star ws] @ lit ''System.out.println('' @
                       [Star (notCh 0x29), Atom (Ch 0x29), Opt (Ch 0x3B), Star ws, Eol]) ''gm'',
      languages = Some (map js [''java''])\<rparr>,
     \<lparr>regex = RegExp ([Bol, Star ws] @ lit ''put'' @
                       [Opt (Ch 0x73), Plus ws, Star (notCh 0x3B), Opt (Ch 0x3B), Star ws, Eol])
                ''gm'',
      languages = Some (map js [''ruby''])\<rparr>,
     \<lparr>regex = RegExp ([Bol, Star ws] @ lit ''echo'' @
                       [Plus ws, Star (notCh 0x3B), Opt (Ch 0x3B), Star ws, Eol]) ''gm'',
      languages = Some (map js [''php''])\<rparr>,
     \<lparr>regex = RegExp ([Bol, Star ws] @ lit ''//'' @ [Star Dot, Eol]) ''gm'',
      languages = Some cStyle\<rparr>,
     \<lparr>regex = RegExp (lit ''/*'' @ [LazyStar anyChar] @ lit ''*/'') ''g'',
      languages = Some cStyle\<rparr>,
     \<lparr>regex = RegExp ([Bol, Star ws] @ lit ''#'' @ [Star Dot, Eol]) ''gm'',
      languages = Some hashStyle\<rparr>,
     \<lparr>regex = RegExp (lit ''<!--'' @ [LazyStar anyChar] @ lit ''-->'') ''g'',
      languages = Some (map js [''html'', ''xml''])\<rparr>,
     \<lparr>regex = RegExp ([Bol, Star ws, Atom (Ch 0x27), Atom (Ch 0x27), Atom (Ch 0x27),
                        LazyStar anyChar, Atom (Ch 0x27), Atom (Ch 0x27), Atom (Ch 0x27),
                        Star ws, Eol]) ''gm'',
      languages = Some (map js [''python''])\<rparr>,
     \<lparr>regex = RegExp ([Bol, Star ws, Atom (Ch 0x22), Atom (Ch 0x22), Atom (Ch 0x22),
                        LazyStar anyChar, Atom (Ch 0x22), Atom (Ch 0x22), Atom (Ch 0x22),
                        Star ws, Eol]) ''gm'',
      languages = Some (map js [''python''])\<rparr>]"

text \<open>The four expressions of the normalization that follows the table.\<close>

definition collapseBlankLines :: regexp where
  \<comment> \<open>\<^verbatim>\<open>/\n\s*\n\s*\n/g\<close>\<close>
  "collapseBlankLines =
     RegExp [Atom (Ch 0x0A), Star ws, Atom (Ch 0x0A), Star ws, Atom (Ch 0x0A)] ''g''"

definition trailingWhitespace :: regexp where
  \<comment> \<open>\<^verbatim>\<open>/[ \t]+$/gm\<close>\<close>
  "trailingWhitespace = RegExp [Plus (Cls [Single 0x20, Single 0x09]), Eol] ''gm''"

definition leadingBlankLine :: regexp where
  \<comment> \<open>\<^verbatim>\<open>/^\s*\n/\<close>, without flags\<close>
  "leadingBlankLine = RegExp [Bol, Star ws, Atom (Ch 0x0A)] []"

definition invisibleCharacters :: regexp where
  \<comment> \<open>the global expression for the class of U+200B to U+200D and U+FEFF\<close>
  "invisibleCharacters = RegExp [Atom (Cls [Range 0x200B 0x200D, Single 0xFEFF])] ''g''"

definition applyPatterns :: "pattern list \<Rightarrow> jstring \<Rightarrow> jstring \<Rightarrow> jstring" where
  \<comment> \<open>the \<^verbatim>\<open>forEach\<close> over the table, updating \<^verbatim>\<open>cleanedText\<close>\<close>
  "applyPatterns pts languageId text0 =
     fold (\<lambda>pt cleanedText.
             if applies pt languageId then replace cleanedText (regex pt) [] else cleanedText)
          pts text0"

definition removePatterns :: "jstring \<Rightarrow> jstring \<Rightarrow> jstring" where
  "removePatterns text0 languageId =
     (let cleanedText = applyPatterns removalPatterns languageId text0;
          cleanedText = replace cleanedText collapseBlankLines [0x0A, 0x0A];
          cleanedText = replace cleanedText trailingWhitespace [];
          cleanedText = replace cleanedText leadingBlankLine [];
          cleanedText = replace cleanedText invisibleCharacters []
      in cleanedText)"

section \<open>The highlight path\<close>

text \<open>
  The two tables of \<^verbatim>\<open>highlightPatterns\<close>: the removal patterns without their
  anchors and surrounding \<^verbatim>\<open>\s*\<close>.
\<close>

definition printPatterns :: "pattern list" where
  "printPatterns =
    [\<lparr>regex = RegExp (lit ''console.log('' @
                       [Star (notCh 0x29), Atom (Ch 0x29), Opt (Ch 0x3B)]) ''g'',
      languages = Some (map js [''javascript'', ''typescript''])\<rparr>,
     \<lparr>regex = RegExp (lit ''print('' @
                       [Star (notCh 0x29), Atom (Ch 0x29), Opt (Ch 0x3B)]) ''g'',
      languages = Some (map js [''python''])\<rparr>,
     \<lparr>regex = RegExp (lit ''printf('' @
                       [Star (notCh 0x29), Atom (Ch 0x29), Opt (Ch 0x3B)]) ''g'',
      languages = Some (map js [''c'', ''cpp''])\<rparr>,
     \<lparr>regex = RegExp (lit ''std::cout'' @ [Star ws] @ lit ''<<'' @
                       [Star (notCh 0x3B), Atom (Ch 0x3B)]) ''g'',
      languages = Some (map js [''cpp''])\<rparr>,
     \<lparr>regex = RegExp (lit ''System.out.println('' @
                       [Star (notCh 0x29), Atom (Ch 0x29), Opt (Ch 0x3B)]) ''g'',
      languages = Some (map js [''java''])\<rparr>,
     \<lparr>regex = RegExp (lit ''put'' @
                       [Opt (Ch 0x73), Plus ws, Star (notCh 0x3B), Opt (Ch 0x3B)]) ''g'',
      languages = Some (map js [''ruby''])\<rparr>,
     \<lparr>regex = RegExp (lit ''echo'' @ [Plus ws, Star (notCh 0x3B), Opt (Ch 0x3B)]) ''g'',
      languages = Some (map js [''php''])\<rparr>]"

definition commentPatterns :: "pattern list" where
  "commentPatterns =
    [\<lparr>regex = RegExp (lit ''//'' @ [Star Dot, Eol]) ''gm'', languages = Some cStyle\<rparr>,
     \<lparr>regex = RegExp (lit ''/*'' @ [LazyStar anyChar] @ lit ''*/'') ''g'',
      languages = Some cStyle\<rparr>,
     \<lparr>regex = RegExp (lit ''#'' @ [Star Dot, Eol]) ''gm'', languages = Some hashStyle\<rparr>,
     \<lparr>regex = RegExp (lit ''<!--'' @ [LazyStar anyChar] @ lit ''-->'') ''g'',
      languages = Some (map js [''html'', ''xml''])\<rparr>,
     \<lparr>regex = RegExp [Atom (Ch 0x27), Atom (Ch 0x27), Atom (Ch 0x27), LazyStar Dot,
                       Atom (Ch 0x27), Atom (Ch 0x27), Atom (Ch 0x27)] ''gs'',
      languages = Some (map js [''python''])\<rparr>,
     \<lparr>regex = RegExp [Atom (Ch 0x22), Atom (Ch 0x22), Atom (Ch 0x22), LazyStar Dot,
                       Atom (Ch 0x22), Atom (Ch 0x22), Atom (Ch 0x22)] ''gs'',
      languages = Some (map js [''python''])\<rparr>]"

text \<open>
  The loop \<^verbatim>\<open>while ((match = pattern.regex.exec(text)) !== null)\<close>. It runs as long as
  exec finds a match, so it is a partial function: \<open>None\<close> is the loop that never ends.
  \<open>positionAt\<close> is the editor's conversion of an offset into a position
  (\<^verbatim>\<open>document.positionAt\<close>), a range is its pair of positions. With the identity for
  \<open>positionAt\<close> a range is the span of offsets of the specification.
\<close>

partial_function (option) execWhile ::
  "(nat \<Rightarrow> 'pos) \<Rightarrow> jstring \<Rightarrow> regexp \<Rightarrow> ('pos \<times> 'pos) list \<Rightarrow> (('pos \<times> 'pos) list \<times> regexp) option"
where
  "execWhile positionAt text0 r ranges =
     (case exec r text0 of
        (None, r') \<Rightarrow> Some (ranges, r')
      | (Some (i, n), r') \<Rightarrow>
          execWhile positionAt text0 r' (ranges @ [(positionAt i, positionAt (i + n))]))"

declare execWhile.simps [code]

text \<open>
  The \<^verbatim>\<open>forEach\<close> of \<^verbatim>\<open>getRangesForPatterns\<close>: an applicable pattern has its cursor
  set to 0 and is scanned; the ranges accumulate over the patterns. The table is returned
  with the cursors as the scans left them.
\<close>

fun forEachPattern ::
  "(nat \<Rightarrow> 'pos) \<Rightarrow> jstring \<Rightarrow> jstring \<Rightarrow> pattern list \<Rightarrow> ('pos \<times> 'pos) list
   \<Rightarrow> (('pos \<times> 'pos) list \<times> pattern list) option"
where
  "forEachPattern positionAt text0 languageId [] ranges = Some (ranges, [])"
| "forEachPattern positionAt text0 languageId (pt # pts) ranges =
     (if applies pt languageId
      then (case execWhile positionAt text0 ((regex pt)\<lparr>lastIndex := 0\<rparr>) ranges of
              None \<Rightarrow> None
            | Some (ranges', r') \<Rightarrow>
                (case forEachPattern positionAt text0 languageId pts ranges' of
                   None \<Rightarrow> None
                 | Some (ranges'', pts') \<Rightarrow> Some (ranges'', pt\<lparr>regex := r'\<rparr> # pts')))
      else (case forEachPattern positionAt text0 languageId pts ranges of
              None \<Rightarrow> None
            | Some (ranges', pts') \<Rightarrow> Some (ranges', pt # pts')))"

definition getRangesForPatterns ::
  "(nat \<Rightarrow> 'pos) \<Rightarrow> jstring \<Rightarrow> pattern list \<Rightarrow> jstring
   \<Rightarrow> (('pos \<times> 'pos) list \<times> pattern list) option"
where
  "getRangesForPatterns positionAt text0 patterns languageId =
     forEachPattern positionAt text0 languageId patterns []"

text \<open>
  \<^verbatim>\<open>highlightPatterns\<close>, as far as the ranges go: the print ranges and the comment
  ranges it hands to the editor.
\<close>

definition highlightPatterns ::
  "(nat \<Rightarrow> 'pos) \<Rightarrow> jstring \<Rightarrow> jstring \<Rightarrow> (('pos \<times> 'pos) list \<times> ('pos \<times> 'pos) list) option"
where
  "highlightPatterns positionAt text0 languageId =
     (case getRangesForPatterns positionAt text0 printPatterns languageId of
        None \<Rightarrow> None
      | Some (printRanges, _) \<Rightarrow>
          (case getRangesForPatterns positionAt text0 commentPatterns languageId of
             None \<Rightarrow> None
           | Some (commentRanges, _) \<Rightarrow> Some (printRanges, commentRanges)))"

section \<open>Auxiliary notions for the statements\<close>

text \<open>
  The four replacements that follow the table, lines 481 to 484 of the source, on their
  own.
\<close>

definition normalizationSteps :: "jstring \<Rightarrow> jstring" where
  "normalizationSteps t =
     replace (replace (replace (replace t collapseBlankLines [0x0A, 0x0A])
                                trailingWhitespace [])
                       leadingBlankLine [])
             invisibleCharacters []"

text \<open>Step 5 alone: \<^verbatim>\<open>cleanedText.replace(/^\s*\n/, '')\<close>.\<close>

definition stripLeadingBlankLine :: "jstring \<Rightarrow> jstring" where
  "stripLeadingBlankLine t = replace t leadingBlankLine []"

text \<open>The least number of code units a match of a pattern consumes.\<close>

fun minLen :: "node list \<Rightarrow> nat" where
  "minLen [] = 0"
| "minLen (Atom c # ns) = Suc (minLen ns)"
| "minLen (Star c # ns) = minLen ns"
| "minLen (LazyStar c # ns) = minLen ns"
| "minLen (Plus c # ns) = Suc (minLen ns)"
| "minLen (Opt c # ns) = minLen ns"
| "minLen (Bol # ns) = minLen ns"
| "minLen (Eol # ns) = minLen ns"

text \<open>
  \<open>matchAt r t i n\<close>: the expression \<open>r\<close> matches the \<open>n > 0\<close> code units of \<open>t\<close>
  from offset \<open>i\<close>.
\<close>

definition matchAt :: "regexp \<Rightarrow> jstring \<Rightarrow> nat \<Rightarrow> nat \<Rightarrow> bool" where
  "matchAt r t i n =
     (0 < n \<and> i + n \<le> length t \<and>
      matchFrom (multiline r) (dotAll r) (source r) (before t i) (drop i t) = Some n)"

text \<open>
  A text is settled for a language when no applicable table pattern and none of the
  four normalization expressions matches anywhere in it.
\<close>

definition settled :: "jstring \<Rightarrow> jstring \<Rightarrow> bool" where
  "settled languageId t =
     ((\<forall>pt \<in> set removalPatterns. applies pt languageId \<longrightarrow> exec_at (regex pt) t 0 = None)
      \<and> (\<forall>r \<in> set [collapseBlankLines, trailingWhitespace, leadingBlankLine, invisibleCharacters].
            exec_at r t 0 = None))"

text \<open>
  Whether a match of a pattern is sure to begin, and to end, with a code unit that is not
  whitespace, read off the pattern: \<open>startsVisible\<close> holds when the pattern begins with
  a literal that is no whitespace; \<open>endsVisible b ns\<close> holds when, after \<open>ns\<close>, the
  last code unit consumed is no whitespace, \<open>b\<close> saying whether that is known of the
  code unit consumed before \<open>ns\<close>.
\<close>

fun visibleCh :: "cls \<Rightarrow> bool" where
  "visibleCh (Ch a) = (\<not> isWhiteSpace a)"
| "visibleCh Dot = False"
| "visibleCh (Cls as) = False"
| "visibleCh (NCls as) = False"

fun endsVisible :: "bool \<Rightarrow> node list \<Rightarrow> bool" where
  "endsVisible b [] = b"
| "endsVisible b (Atom c # ns) = endsVisible (visibleCh c) ns"
| "endsVisible b (Star c # ns) = endsVisible False ns"
| "endsVisible b (LazyStar c # ns) = endsVisible False ns"
| "endsVisible b (Plus c # ns) = endsVisible False ns"
| "endsVisible b (Opt c # ns) = (endsVisible b ns \<and> endsVisible (visibleCh c) ns)"
| "endsVisible b (Bol # ns) = endsVisible b ns"
| "endsVisible b (Eol # ns) = endsVisible b ns"

fun startsVisible :: "node list \<Rightarrow> bool" where
  "startsVisible (Atom c # ns) = visibleCh c"
| "startsVisible (Bol # ns) = startsVisible ns"
| "startsVisible ns = False"

definition visibleAt :: "code_unit option \<Rightarrow> bool" where
  "visibleAt p = (case p of None \<Rightarrow> False | Some c \<Rightarrow> \<not> isWhiteSpace c)"

definition lastOf :: "code_unit option \<Rightarrow> jstring \<Rightarrow> nat \<Rightarrow> code_unit option" where
  "lastOf p xs n = (if n = 0 then p else Some (xs ! (n - 1)))"

text \<open>
  What is proved of a span \<open>(a, b)\<close> of the highlight path: it is not empty and lies in
  the text, it begins with a code unit that is no whitespace, and it is a match of an
  applicable pattern of the table; it ends with a code unit that is no whitespace when
  that pattern ends visibly.
\<close>

definition tokenSpan :: "pattern list \<Rightarrow> jstring \<Rightarrow> jstring \<Rightarrow> nat \<times> nat \<Rightarrow> bool" where
  "tokenSpan pts languageId t sp =
     (case sp of (a, b) \<Rightarrow>
        a < b \<and> b \<le> length t \<and> \<not> isWhiteSpace (t ! a) \<and>
        (\<exists>pt \<in> set pts. applies pt languageId \<and> matchAt (regex pt) t a (b - a) \<and>
           (endsVisible False (source (regex pt)) \<longrightarrow> \<not> isWhiteSpace (t ! (b - 1)))))"

text \<open>
  The normalization in words, step by step. Two character sets first: the horizontal
  whitespace of step 4 and the invisible characters of step 6.
\<close>

definition isHorizontal :: "code_unit \<Rightarrow> bool" where
  "isHorizontal c = (c = 0x20 \<or> c = 0x09)"

definition isInvisible :: "code_unit \<Rightarrow> bool" where
  "isInvisible c = ((0x200B \<le> c \<and> c \<le> 0x200D) \<or> c = 0xFEFF)"

text \<open>
  Step 6: the invisible characters are removed wherever they are.
\<close>

definition removeInvisible :: "jstring \<Rightarrow> jstring" where
  "removeInvisible t = filter (\<lambda>c. \<not> isInvisible c) t"

text \<open>
  Step 4: a space or tab is removed when only spaces and tabs lie between it and the end
  of its line, a line ending at a line terminator or at the end of the text.
\<close>

definition lineEnd :: "jstring \<Rightarrow> bool" where
  "lineEnd xs = (case xs of [] \<Rightarrow> True | y # ys \<Rightarrow> isLineTerminator y)"

fun stripTrailing :: "jstring \<Rightarrow> jstring" where
  "stripTrailing [] = []"
| "stripTrailing (x # xs) =
     (if isHorizontal x \<and> lineEnd (stripTrailing xs) then stripTrailing xs
      else x # stripTrailing xs)"

text \<open>
  Step 3 as the specification words it: a run of three or more consecutive line feeds
  becomes two line feeds. \<open>n\<close> counts the line feeds of the run being read.
\<close>

fun collapseNewlines :: "nat \<Rightarrow> jstring \<Rightarrow> jstring" where
  "collapseNewlines n [] = replicate (min n 2) 0x0A"
| "collapseNewlines n (x # xs) =
     (if x = 0x0A then collapseNewlines (Suc n) xs
      else replicate (min n 2) 0x0A @ x # collapseNewlines 0 xs)"

text \<open>
  Step 5 as the specification words it: one blank line, a line of nothing but
  whitespace, is removed from the start of the text if the text begins with one.
\<close>

definition stripSingleBlankLine :: "jstring \<Rightarrow> jstring" where
  "stripSingleBlankLine t =
     (case dropWhile (\<lambda>c. isWhiteSpace c \<and> c \<noteq> 0x0A) t of
        [] \<Rightarrow> t
      | y # rest \<Rightarrow> if y = 0x0A then rest else t)"

text \<open>
  The universal normalization as the specification words it: steps 3 to 6 of its section
  4.2, in their order.
\<close>

definition normalize :: "jstring \<Rightarrow> jstring" where
  "normalize t = removeInvisible (stripSingleBlankLine (stripTrailing (collapseNewlines 0 t)))"

text \<open>
  Steps 3 and 5 in the words of what the source's expressions do. The part of a run of
  whitespace up to its last line feed, and the part after it:
\<close>

definition upToLastLineFeed :: "jstring \<Rightarrow> jstring" where
  "upToLastLineFeed w = rev (dropWhile (\<lambda>c. c \<noteq> 0x0A) (rev w))"

definition afterLastLineFeed :: "jstring \<Rightarrow> jstring" where
  "afterLastLineFeed w = rev (takeWhile (\<lambda>c. c \<noteq> 0x0A) (rev w))"

text \<open>
  Step 5: the whitespace the text begins with is removed up to its last line feed, that
  is, every leading blank line is removed.
\<close>

definition dropLeadingBlankLines :: "jstring \<Rightarrow> jstring" where
  "dropLeadingBlankLines t =
     (if 0x0A \<in> set (takeWhile isWhiteSpace t)
      then afterLastLineFeed (takeWhile isWhiteSpace t) @ dropWhile isWhiteSpace t else t)"

text \<open>
  Step 3: a line feed that has two or more line feeds in the whitespace after it is
  replaced, with that whitespace up to its last line feed, by two line feeds. The line
  feeds need not be consecutive.
\<close>

function collapseBlank :: "jstring \<Rightarrow> jstring" where
  "collapseBlank [] = []"
| "collapseBlank (x # xs) =
     (if x = 0x0A \<and> 2 \<le> count_list (takeWhile isWhiteSpace xs) 0x0A
      then [0x0A, 0x0A] @ afterLastLineFeed (takeWhile isWhiteSpace xs)
             @ collapseBlank (dropWhile isWhiteSpace xs)
      else x # collapseBlank xs)"
  by pat_completeness auto
termination
  by (relation "measure length") (auto simp: less_Suc_eq_le length_dropWhile_le)

text \<open>The patterns of steps 3 and 4, for the facts about them.\<close>

abbreviation horizontal :: cls where
  "horizontal \<equiv> Cls [Single 0x20, Single 0x09]"

abbreviation collapsePattern :: "node list" where
  "collapsePattern \<equiv> [Atom (Ch 0x0A), Star ws, Atom (Ch 0x0A), Star ws, Atom (Ch 0x0A)]"

section \<open>Facts about the matcher and the string methods\<close>

lemma matchFrom_bounds:
  "matchFrom ml da ns p xs = Some n \<Longrightarrow> minLen ns \<le> n \<and> n \<le> length xs"
proof (induction ml da ns p xs arbitrary: n rule: matchFrom.induct)
  case (1 ml da p xs)
  then show ?case by (simp add: matchFrom.simps(1))
next
  case (2 ml da c ns p xs)
  from "2.prems" "2.IH" show ?case
    by (subst (asm) matchFrom.simps(2)) (auto split: list.splits if_splits)
next
  case (3 ml da c ns p xs)
  from "3.prems" "3.IH" show ?case
    by (subst (asm) matchFrom.simps(3)) (fastforce split: list.splits if_splits option.splits)
next
  case (4 ml da c ns p xs)
  from "4.prems" "4.IH" show ?case
    by (subst (asm) matchFrom.simps(4)) (fastforce split: list.splits if_splits option.splits)
next
  case (5 ml da c ns p xs)
  from "5.prems" "5.IH" show ?case
    by (subst (asm) matchFrom.simps(5)) (auto split: list.splits if_splits)
next
  case (6 ml da c ns p xs)
  from "6.prems" "6.IH" show ?case
    by (subst (asm) matchFrom.simps(6)) (fastforce split: list.splits if_splits option.splits)
next
  case (7 ml da ns p xs)
  from "7.prems" "7.IH" show ?case
    by (subst (asm) matchFrom.simps(7)) (auto split: option.splits if_splits)
next
  case (8 ml da ns p xs)
  from "8.prems" "8.IH" show ?case
    by (subst (asm) matchFrom.simps(8)) (auto split: list.splits if_splits)
qed

lemma search_sound:
  "search ml da ns p xs = Some (k, n) \<Longrightarrow>
     k \<le> length xs \<and>
     matchFrom ml da ns (if k = 0 then p else Some (xs ! (k - 1))) (drop k xs) = Some n"
proof (induction xs arbitrary: p k)
  case Nil
  then show ?case by (auto split: option.splits)
next
  case (Cons x xs)
  show ?case
  proof (cases "matchFrom ml da ns p (x # xs)")
    case (Some m)
    with Cons.prems show ?thesis by simp
  next
    case None
    with Cons.prems obtain k' where k: "k = Suc k'" and s: "search ml da ns (Some x) xs = Some (k', n)"
      by auto
    from Cons.IH[OF s] show ?thesis using k by (cases k') auto
  qed
qed

lemma exec_at_sound:
  assumes "exec_at r s li = Some (i, n)"
  shows "li \<le> i" and "i \<le> length s"
    and "matchFrom (multiline r) (dotAll r) (source r) (before s i) (drop i s) = Some n"
proof -
  from assms have li: "li \<le> length s" by (auto simp: exec_at_def split: if_splits)
  from assms li obtain k where i: "i = li + k"
    and s: "search (multiline r) (dotAll r) (source r) (before s li) (drop li s) = Some (k, n)"
    by (auto simp: exec_at_def)
  note ss = search_sound[OF s]
  show "li \<le> i" using i by simp
  show "i \<le> length s" using i ss li by auto
  show "matchFrom (multiline r) (dotAll r) (source r) (before s i) (drop i s) = Some n"
  proof (cases k)
    case 0
    then show ?thesis using ss i by simp
  next
    case (Suc k')
    then have "before s i = Some (drop li s ! (k - 1))"
      using i ss li by (simp add: before_def)
    then show ?thesis using ss i Suc by (simp add: add.commute)
  qed
qed

lemma exec_at_bounds:
  assumes "exec_at r s li = Some (i, n)"
  shows "minLen (source r) \<le> n" and "i + n \<le> length s"
proof -
  from matchFrom_bounds[OF exec_at_sound(3)[OF assms]] exec_at_sound(2)[OF assms]
  show "minLen (source r) \<le> n" and "i + n \<le> length s" by auto
qed

lemma replaceAllFrom_length:
  "length repl \<le> minLen (source r) \<Longrightarrow> nsp \<le> li \<Longrightarrow>
     length (replaceAllFrom r repl s li nsp) \<le> length s - nsp"
proof (induction r repl s li nsp rule: replaceAllFrom.induct)
  case (1 r repl s li nsp)
  show ?case
  proof (cases "exec_at r s li")
    case None
    then show ?thesis by (simp add: replaceAllFrom.simps)
  next
    case (Some a)
    obtain i n where a: "a = (i, n)" by (cases a)
    note e = Some[unfolded a]
    note b = exec_at_sound(1,2)[OF e] exec_at_bounds[OF e]
    have le: "nsp \<le> i" using b "1.prems" by simp
    have "length (replaceAllFrom r repl s (if n = 0 then i + 1 else i + n) (i + n)) \<le> length s - (i + n)"
      using "1.IH"(1)[OF e refl le] "1.prems" by simp
    then show ?thesis using e le b "1.prems"
      by (subst replaceAllFrom.simps) simp
  qed
qed

lemma replace_length:
  "length (replace s r repl) \<le> length s" if "length repl \<le> minLen (source r)"
proof (cases "global r")
  case True
  then show ?thesis using replaceAllFrom_length[of repl r 0 0 s] that by (simp add: replace_def)
next
  case False
  show ?thesis
  proof (cases "exec_at r s 0")
    case None
    then show ?thesis using False by (simp add: replace_def)
  next
    case (Some a)
    obtain i n where a: "a = (i, n)" by (cases a)
    note e = Some[unfolded a]
    from exec_at_bounds[OF e] that e False show ?thesis by (simp add: replace_def)
  qed
qed


lemma applyPatterns_length: "length (applyPatterns pts languageId t) \<le> length t"
  unfolding applyPatterns_def
proof (induction pts arbitrary: t)
  case Nil
  show ?case by simp
next
  case (Cons pt pts)
  have "length (replace t (regex pt) []) \<le> length t"
    by (rule replace_length) simp
  with Cons[of "replace t (regex pt) []"] Cons[of t] show ?case
    by (auto intro: le_trans)
qed

lemmas table_defs =
  removalPatterns_def printPatterns_def commentPatterns_def cStyle_def hashStyle_def
  collapseBlankLines_def trailingWhitespace_def leadingBlankLine_def invisibleCharacters_def
  RegExp_def lit_def js_def

lemmas run_defs =
  applyPatterns_def applies_def replace_def replaceAllFrom.simps exec_at_def before_def
  matchFrom.simps isWhiteSpace_def isLineTerminator_def

subsection \<open>Texts that no pattern matches\<close>

lemma replace_unmatched: "exec_at r t 0 = None \<Longrightarrow> replace t r repl = t"
  by (simp add: replace_def replaceAllFrom.simps)

lemma replace_shorter:
  assumes e: "exec_at r t 0 = Some (i, n)" and l: "length repl < minLen (source r)"
  shows "length (replace t r repl) < length t"
proof -
  note b = exec_at_bounds[OF e]
  show ?thesis
  proof (cases "global r")
    case False
    with e b l show ?thesis by (simp add: replace_def)
  next
    case True
    have "length (replaceAllFrom r repl t (if n = 0 then i + 1 else i + n) (i + n))
            \<le> length t - (i + n)"
      using l by (intro replaceAllFrom_length) auto
    moreover have "replace t r repl =
        take i t @ repl @ replaceAllFrom r repl t (if n = 0 then i + 1 else i + n) (i + n)"
      using True e by (simp add: replace_def replaceAllFrom.simps[of r repl t 0 0])
    ultimately show ?thesis using b l by simp
  qed
qed

lemma replace_same_length:
  assumes "length (replace t r repl) = length t" and "length repl < minLen (source r)"
  shows "exec_at r t 0 = None \<and> replace t r repl = t"
proof (cases "exec_at r t 0")
  case None
  then show ?thesis by (simp add: replace_unmatched)
next
  case (Some a)
  obtain i n where "a = (i, n)" by (cases a)
  with Some replace_shorter[of r t i n repl] assms show ?thesis by simp
qed

lemma applyPatterns_same_length:
  assumes "\<forall>pt \<in> set pts. 0 < minLen (source (regex pt))"
    and "length (applyPatterns pts languageId t) = length t"
  shows "(\<forall>pt \<in> set pts. applies pt languageId \<longrightarrow> exec_at (regex pt) t 0 = None)
         \<and> applyPatterns pts languageId t = t"
  using assms
proof (induction pts arbitrary: t)
  case Nil
  then show ?case by (simp add: applyPatterns_def)
next
  case (Cons pt pts)
  from Cons.prems(1) have m: "0 < minLen (source (regex pt))"
    and rest: "\<forall>pt \<in> set pts. 0 < minLen (source (regex pt))" by simp_all
  show ?case
  proof (cases "applies pt languageId")
    case False
    then have "applyPatterns (pt # pts) languageId t = applyPatterns pts languageId t"
      by (simp add: applyPatterns_def)
    with Cons.IH[OF rest, of t] Cons.prems(2) False show ?thesis by simp
  next
    case True
    let ?t1 = "replace t (regex pt) []"
    have u: "applyPatterns (pt # pts) languageId t = applyPatterns pts languageId ?t1"
      using True by (simp add: applyPatterns_def)
    have "length (applyPatterns pts languageId ?t1) \<le> length ?t1"
      by (rule applyPatterns_length)
    moreover have "length ?t1 \<le> length t" by (rule replace_length) simp
    ultimately have "length ?t1 = length t" using Cons.prems(2) u by simp
    from replace_same_length[OF this] m have n: "exec_at (regex pt) t 0 = None" and i: "?t1 = t"
      by simp_all
    from Cons.IH[OF rest, of t] Cons.prems(2) u i n show ?thesis by simp
  qed
qed

lemma applyPatterns_unmatched:
  "\<forall>pt \<in> set pts. applies pt languageId \<longrightarrow> exec_at (regex pt) t 0 = None \<Longrightarrow>
     applyPatterns pts languageId t = t"
  unfolding applyPatterns_def
  by (induction pts) (simp_all add: replace_unmatched)

lemma removal_table_minLen: "\<forall>pt \<in> set removalPatterns. 0 < minLen (source (regex pt))"
  by (simp add: table_defs)

lemma removePatterns_fixed_iff: "removePatterns u languageId = u \<longleftrightarrow> settled languageId u"
proof
  assume "settled languageId u"
  then show "removePatterns u languageId = u"
    by (simp add: settled_def removePatterns_def applyPatterns_unmatched replace_unmatched)
next
  assume f: "removePatterns u languageId = u"
  let ?a = "applyPatterns removalPatterns languageId u"
  let ?b = "replace ?a collapseBlankLines [0x0A, 0x0A]"
  let ?c = "replace ?b trailingWhitespace []"
  let ?d = "replace ?c leadingBlankLine []"
  let ?e = "replace ?d invisibleCharacters []"
  have e: "?e = u" using f by (simp add: removePatterns_def Let_def)
  have m: "length [0x0A, 0x0A :: nat] < minLen (source collapseBlankLines)"
    "length ([] :: jstring) < minLen (source trailingWhitespace)"
    "length ([] :: jstring) < minLen (source leadingBlankLine)"
    "length ([] :: jstring) < minLen (source invisibleCharacters)"
    by (simp_all add: table_defs)
  have l: "length ?e \<le> length ?d" "length ?d \<le> length ?c" "length ?c \<le> length ?b"
    "length ?b \<le> length ?a" "length ?a \<le> length u"
    using m by (simp_all add: replace_length applyPatterns_length less_imp_le)
  have la: "length ?a = length u" using l e by simp
  from applyPatterns_same_length[OF removal_table_minLen la]
  have a: "?a = u"
    and ra: "\<forall>pt \<in> set removalPatterns. applies pt languageId \<longrightarrow> exec_at (regex pt) u 0 = None"
    by simp_all
  have "length ?b = length ?a" using l e by simp
  from replace_same_length[OF this m(1)] a
  have b: "?b = u" and rb: "exec_at collapseBlankLines u 0 = None" by simp_all
  have "length ?c = length ?b" using l e by simp
  from replace_same_length[OF this m(2)] b
  have c: "?c = u" and rc: "exec_at trailingWhitespace u 0 = None" by simp_all
  have "length ?d = length ?c" using l e by simp
  from replace_same_length[OF this m(3)] c
  have d: "?d = u" and rd: "exec_at leadingBlankLine u 0 = None" by simp_all
  have "length ?e = length ?d" using l e by simp
  from replace_same_length[OF this m(4)] d
  have re: "exec_at invisibleCharacters u 0 = None" by simp
  from ra rb rc rd re show "settled languageId u" by (simp add: settled_def)
qed

subsection \<open>The leading blank lines\<close>

lemma blank_none:
  "0x0A \<notin> set (takeWhile isWhiteSpace xs) \<Longrightarrow>
     matchFrom ml da [Star ws, Atom (Ch 0x0A)] p xs = None"
proof (induction xs arbitrary: p)
  case Nil
  show ?case by (simp add: matchFrom.simps)
next
  case (Cons x xs)
  have nl: "isWhiteSpace 0x0A" by (simp add: isWhiteSpace_def)
  show ?case
  proof (cases "isWhiteSpace x")
    case True
    with Cons.prems have "x \<noteq> 0x0A" and "0x0A \<notin> set (takeWhile isWhiteSpace xs)" by auto
    with Cons.IH[of "Some x"] True show ?thesis
      by (subst matchFrom.simps(3)) (simp add: matchFrom.simps(2))
  next
    case False
    with nl have "x \<noteq> 0x0A" by auto
    with False show ?thesis
      by (subst matchFrom.simps(3)) (simp add: matchFrom.simps(2))
  qed
qed

lemma blank_some:
  "\<forall>c \<in> set w. isWhiteSpace c \<Longrightarrow> 0x0A \<notin> set (takeWhile isWhiteSpace rest) \<Longrightarrow>
     matchFrom ml da [Star ws, Atom (Ch 0x0A)] p (w @ 0x0A # rest) = Some (Suc (length w))"
proof (induction w arbitrary: p)
  case Nil
  have nl: "isWhiteSpace 0x0A" by (simp add: isWhiteSpace_def)
  from blank_none[OF Nil(2), of ml da "Some 0x0A"] nl show ?case
    by (subst matchFrom.simps(3)) (simp add: matchFrom.simps(1,2))
next
  case (Cons x w)
  from Cons.IH[of "Some x"] Cons.prems show ?case
    by (subst matchFrom.simps(3)) simp
qed

lemma search_Bol_later: "search False da (Bol # ns) (Some c) xs = None"
  by (induction xs arbitrary: c) (simp_all add: matchFrom.simps(7))

lemma search_Bol_start:
  "search False da (Bol # ns) None xs =
     (case matchFrom False da ns None xs of None \<Rightarrow> None | Some n \<Rightarrow> Some (0, n))"
  by (cases xs) (simp_all add: matchFrom.simps(7) search_Bol_later split: option.splits)

lemma exec_leading:
  "exec_at leadingBlankLine t 0 =
     (case matchFrom False False [Star ws, Atom (Ch 0x0A)] None t of
        None \<Rightarrow> None | Some n \<Rightarrow> Some (0, n))"
  by (simp add: exec_at_def leadingBlankLine_def RegExp_def before_def search_Bol_start
           split: option.splits)

lemma takeWhile_dropWhile_nil: "takeWhile P (dropWhile P xs) = []"
  by (induction xs) auto

lemma leading_forms:
  "(\<exists>w rest. t = w @ 0x0A # rest \<and> (\<forall>c \<in> set w. isWhiteSpace c)
        \<and> 0x0A \<notin> set (takeWhile isWhiteSpace rest))
   \<or> 0x0A \<notin> set (takeWhile isWhiteSpace t)"
proof (cases "0x0A \<in> set (takeWhile isWhiteSpace t)")
  case False
  then show ?thesis by simp
next
  case True
  from split_list_last[OF True] obtain w v where
    s: "takeWhile isWhiteSpace t = w @ 0x0A # v" and v: "0x0A \<notin> set v" by blast
  have all: "\<forall>c \<in> set (takeWhile isWhiteSpace t). isWhiteSpace c"
    by (auto dest: set_takeWhileD)
  then have w: "\<forall>c \<in> set w. isWhiteSpace c" and vw: "\<forall>c \<in> set v. isWhiteSpace c"
    unfolding s by auto
  let ?rest = "v @ dropWhile isWhiteSpace t"
  have "t = takeWhile isWhiteSpace t @ dropWhile isWhiteSpace t" by simp
  then have t: "t = w @ 0x0A # ?rest" unfolding s by simp
  have "takeWhile isWhiteSpace ?rest = v"
    using vw by (simp add: takeWhile_append2 takeWhile_dropWhile_nil)
  with v t w show ?thesis by metis
qed

subsection \<open>The scan of the highlight path\<close>

lemma exec_global_None:
  "global r \<Longrightarrow> exec_at r t (lastIndex r) = None \<Longrightarrow> exec r t = (None, r\<lparr>lastIndex := 0\<rparr>)"
  by (simp add: exec_def)

lemma exec_global_Some:
  "global r \<Longrightarrow> exec_at r t (lastIndex r) = Some (i, n) \<Longrightarrow>
     exec r t = (Some (i, n), r\<lparr>lastIndex := i + n\<rparr>)"
  by (simp add: exec_def)

lemma execWhile_scan:
  assumes "global r" and "0 < minLen (source r)"
  shows "\<exists>ms. execWhile pa t r ranges =
                 Some (ranges @ map (\<lambda>(i, n). (pa i, pa (i + n))) ms, r\<lparr>lastIndex := 0\<rparr>)
              \<and> (\<forall>(i, n) \<in> set ms. matchAt r t i n)"
  using assms
proof (induction "Suc (length t) - lastIndex r" arbitrary: r ranges rule: less_induct)
  case less
  show ?case
  proof (cases "exec_at r t (lastIndex r)")
    case None
    then have "execWhile pa t r ranges = Some (ranges, r\<lparr>lastIndex := 0\<rparr>)"
      using less.prems by (subst execWhile.simps) (simp add: exec_global_None)
    then show ?thesis by (intro exI[of _ "[]"]) simp
  next
    case (Some a)
    obtain i n where a: "a = (i, n)" by (cases a)
    note e = Some[unfolded a]
    let ?r = "r\<lparr>lastIndex := i + n\<rparr>"
    have b: "lastIndex r \<le> i" "i + n \<le> length t" "0 < n"
      using exec_at_sound(1)[OF e] exec_at_bounds[OF e] less.prems(2) by auto
    have m: "matchAt r t i n"
      using b exec_at_sound(3)[OF e] by (simp add: matchAt_def)
    have "Suc (length t) - lastIndex ?r < Suc (length t) - lastIndex r"
      using b by simp
    from less.hyps[OF this, of "ranges @ [(pa i, pa (i + n))]"] less.prems
    obtain ms where ms:
      "execWhile pa t ?r (ranges @ [(pa i, pa (i + n))]) =
         Some ((ranges @ [(pa i, pa (i + n))]) @ map (\<lambda>(i, n). (pa i, pa (i + n))) ms,
               ?r\<lparr>lastIndex := 0\<rparr>)"
      "\<forall>(i, n) \<in> set ms. matchAt ?r t i n"
      by auto
    have "execWhile pa t r ranges =
            Some (ranges @ map (\<lambda>(i, n). (pa i, pa (i + n))) ((i, n) # ms), r\<lparr>lastIndex := 0\<rparr>)"
      using ms(1) less.prems(1) e by (subst execWhile.simps) (simp add: exec_global_Some)
    moreover have "\<forall>(i, n) \<in> set ((i, n) # ms). matchAt r t i n"
      using m ms(2) by (auto simp: matchAt_def)
    ultimately show ?thesis by blast
  qed
qed

lemma execWhile_cursor:
  assumes "execWhile pa t r ranges = Some y"
  shows "snd y = (if global r then r\<lparr>lastIndex := 0\<rparr> else r)"
proof (rule execWhile.raw_induct
         [where P = "\<lambda>pa t r ranges y. snd y = (if global r then r\<lparr>lastIndex := 0\<rparr> else r)",
          OF _ assms], goal_cases)
  case (1 f pa t r ranges y)
  show ?case
  proof (cases "exec_at r t (if global r then lastIndex r else 0)")
    case None
    with "1"(2) show ?thesis by (auto simp: exec_def split: if_splits)
  next
    case (Some a)
    obtain i n where a: "a = (i, n)" by (cases a)
    from "1"(2) Some a
    have "f pa t (if global r then r\<lparr>lastIndex := i + n\<rparr> else r)
            (ranges @ [(pa i, pa (i + n))]) = Some y"
      by (simp add: exec_def)
    from "1"(1)[OF this] show ?thesis by (simp split: if_splits)
  qed
qed

lemma forEachPattern_again:
  "forEachPattern pa t languageId pts ranges = Some (rs, pts') \<Longrightarrow>
     forEachPattern pa t languageId pts' ranges = Some (rs, pts')"
proof (induction pts arbitrary: ranges rs pts')
  case Nil
  then show ?case by simp
next
  case (Cons pt pts)
  show ?case
  proof (cases "applies pt languageId")
    case False
    with Cons.prems obtain qs where q: "forEachPattern pa t languageId pts ranges = Some (rs, qs)"
      and p: "pts' = pt # qs"
      by (auto split: option.splits)
    from Cons.IH[OF q] False show ?thesis by (simp add: p)
  next
    case True
    with Cons.prems obtain ranges1 r1 qs
      where w: "execWhile pa t ((regex pt)\<lparr>lastIndex := 0\<rparr>) ranges = Some (ranges1, r1)"
        and q: "forEachPattern pa t languageId pts ranges1 = Some (rs, qs)"
        and p: "pts' = pt\<lparr>regex := r1\<rparr> # qs"
      by (auto split: option.splits)
    from execWhile_cursor[OF w] have r1: "r1\<lparr>lastIndex := 0\<rparr> = (regex pt)\<lparr>lastIndex := 0\<rparr>"
      by (simp split: if_splits)
    have a: "applies (pt\<lparr>regex := r1\<rparr>) languageId" using True by (simp add: applies_def)
    from Cons.IH[OF q] w a r1 show ?thesis by (simp add: p)
  qed
qed

lemma fst_case_pair:
  "map_option fst (case x of None \<Rightarrow> None | Some (rs, ps) \<Rightarrow> Some (rs, g ps)) = map_option fst x"
  by (cases x) auto

lemma forEachPattern_cursors:
  "map_option fst (forEachPattern pa t languageId
                     (map (\<lambda>pt. pt\<lparr>regex := (regex pt)\<lparr>lastIndex := c pt\<rparr>\<rparr>) pts) ranges)
   = map_option fst (forEachPattern pa t languageId pts ranges)"
proof (induction pts arbitrary: ranges)
  case Nil
  show ?case by simp
next
  case (Cons pt pts)
  have a: "applies (pt\<lparr>regex := (regex pt)\<lparr>lastIndex := c pt\<rparr>\<rparr>) languageId = applies pt languageId"
    by (simp add: applies_def)
  show ?case
  proof (cases "applies pt languageId")
    case False
    with Cons[of ranges] a show ?thesis
      by (simp add: fst_case_pair)
  next
    case True
    show ?thesis
    proof (cases "execWhile pa t ((regex pt)\<lparr>lastIndex := 0\<rparr>) ranges")
      case None
      with True a show ?thesis by simp
    next
      case (Some y)
      obtain ranges1 r1 where y: "y = (ranges1, r1)" by (cases y)
      from Cons[of ranges1] Some True a show ?thesis
        by (simp add: y fst_case_pair)
    qed
  qed
qed

lemma matchAt_cursor [simp]: "matchAt (r\<lparr>lastIndex := k\<rparr>) t i n = matchAt r t i n"
  by (simp add: matchAt_def)

lemma forEachPattern_scan:
  assumes "\<forall>pt \<in> set pts. global (regex pt) \<and> 0 < minLen (source (regex pt))"
  shows "\<exists>ms pts'.
           forEachPattern pa t languageId pts ranges =
             Some (ranges @ map (\<lambda>(pt, i, n). (pa i, pa (i + n))) ms, pts')
           \<and> (\<forall>(pt, i, n) \<in> set ms. pt \<in> set pts \<and> applies pt languageId \<and> matchAt (regex pt) t i n)"
  using assms
proof (induction pts arbitrary: ranges)
  case Nil
  show ?case by (intro exI[of _ "[]"]) simp
next
  case (Cons pt pts)
  from Cons.prems have g: "global (regex pt)" "0 < minLen (source (regex pt))"
    and rest: "\<forall>pt \<in> set pts. global (regex pt) \<and> 0 < minLen (source (regex pt))"
    by simp_all
  show ?case
  proof (cases "applies pt languageId")
    case False
    from Cons.IH[OF rest, of ranges] obtain ms pts' where
      f: "forEachPattern pa t languageId pts ranges =
            Some (ranges @ map (\<lambda>(pt, i, n). (pa i, pa (i + n))) ms, pts')"
      and m: "\<forall>(pt, i, n) \<in> set ms. pt \<in> set pts \<and> applies pt languageId \<and> matchAt (regex pt) t i n"
      by blast
    have "forEachPattern pa t languageId (pt # pts) ranges =
            Some (ranges @ map (\<lambda>(pt, i, n). (pa i, pa (i + n))) ms, pt # pts')"
      using False f by simp
    moreover have "\<forall>(q, i, n) \<in> set ms. q \<in> set (pt # pts) \<and> applies q languageId \<and> matchAt (regex q) t i n"
      using m by auto
    ultimately show ?thesis by blast
  next
    case True
    let ?r = "(regex pt)\<lparr>lastIndex := 0\<rparr>"
    from execWhile_scan[of ?r pa t ranges] g obtain ms0 where
      w: "execWhile pa t ?r ranges =
            Some (ranges @ map (\<lambda>(i, n). (pa i, pa (i + n))) ms0, ?r\<lparr>lastIndex := 0\<rparr>)"
      and m0: "\<forall>(i, n) \<in> set ms0. matchAt (regex pt) t i n"
      by auto
    let ?ranges1 = "ranges @ map (\<lambda>(i, n). (pa i, pa (i + n))) ms0"
    from Cons.IH[OF rest, of ?ranges1] obtain ms1 pts' where
      f: "forEachPattern pa t languageId pts ?ranges1 =
            Some (?ranges1 @ map (\<lambda>(pt, i, n). (pa i, pa (i + n))) ms1, pts')"
      and m1: "\<forall>(pt, i, n) \<in> set ms1. pt \<in> set pts \<and> applies pt languageId \<and> matchAt (regex pt) t i n"
      by blast
    let ?ms = "map (\<lambda>(i, n). (pt, i, n)) ms0 @ ms1"
    have "forEachPattern pa t languageId (pt # pts) ranges =
            Some (ranges @ map (\<lambda>(pt, i, n). (pa i, pa (i + n))) ?ms,
                  pt\<lparr>regex := ?r\<lparr>lastIndex := 0\<rparr>\<rparr> # pts')"
      using True w f by (simp add: comp_def case_prod_unfold)
    moreover have "\<forall>(q, i, n) \<in> set ?ms. q \<in> set (pt # pts) \<and> applies q languageId \<and> matchAt (regex q) t i n"
      using m0 m1 True by auto
    ultimately show ?thesis by blast
  qed
qed

lemma highlight_tables_scannable:
  "\<forall>pt \<in> set (printPatterns @ commentPatterns). global (regex pt) \<and> 0 < minLen (source (regex pt))"
  by (simp add: table_defs)

subsection \<open>The first and the last code unit of a match\<close>

lemma lastOf_Cons [simp]: "lastOf p (x # xs) (Suc m) = lastOf (Some x) xs m"
  by (cases m) (simp_all add: lastOf_def)

lemma lastOf_0 [simp]: "lastOf p xs 0 = p"
  by (simp add: lastOf_def)

lemma visibleCh_match: "visibleCh c \<Longrightarrow> cls_match da c x \<Longrightarrow> \<not> isWhiteSpace x"
  by (cases c) auto

lemma endsVisible_mono: "endsVisible False ns \<Longrightarrow> endsVisible b ns"
proof (induction ns arbitrary: b)
  case Nil
  then show ?case by simp
next
  case (Cons a ns)
  then show ?case by (cases a) auto
qed

lemma matchFrom_endsVisible:
  "matchFrom ml da ns p xs = Some n \<Longrightarrow> endsVisible b ns \<Longrightarrow> (b \<Longrightarrow> visibleAt p)
     \<Longrightarrow> visibleAt (lastOf p xs n)"
proof (induction ml da ns p xs arbitrary: n b rule: matchFrom.induct)
  case (1 ml da p xs)
  then show ?case by (simp add: matchFrom.simps(1))
next
  case (2 ml da c ns p xs)
  from "2.prems"(1) obtain x xs' m where xs: "xs = x # xs'" and c: "cls_match da c x"
    and m: "matchFrom ml da ns (Some x) xs' = Some m" and n: "n = Suc m"
    by (subst (asm) matchFrom.simps(2)) (auto split: list.splits if_splits)
  have "visibleCh c \<Longrightarrow> visibleAt (Some x)"
    using visibleCh_match[OF _ c] by (simp add: visibleAt_def)
  from "2.IH"[OF xs c m _ this] "2.prems"(2) show ?case
    by (simp add: xs n)
next
  case (3 ml da c ns p xs)
  have ev: "endsVisible False ns" using "3.prems"(2) by simp
  show ?case
  proof (cases xs)
    case Nil
    with "3.prems"(1) have "matchFrom ml da ns p [] = Some n"
      by (subst (asm) matchFrom.simps(3)) simp
    from "3.IH"(1)[OF Nil this ev] show ?thesis using Nil by simp
  next
    case (Cons x xs')
    show ?thesis
    proof (cases "cls_match da c x")
      case True
      show ?thesis
      proof (cases "matchFrom ml da (Star c # ns) (Some x) xs'")
        case None
        with "3.prems"(1) Cons True have "matchFrom ml da ns p (x # xs') = Some n"
          by (subst (asm) matchFrom.simps(3)) simp
        from "3.IH"(3)[OF Cons True None this endsVisible_mono[OF ev]] "3.prems"(3)
        show ?thesis using Cons by simp
      next
        case (Some m)
        with "3.prems"(1) Cons True have n: "n = Suc m"
          by (subst (asm) matchFrom.simps(3)) simp
        have "endsVisible False (Star c # ns)" using ev by simp
        from "3.IH"(2)[OF Cons True Some this] show ?thesis using Cons n by simp
      qed
    next
      case False
      with "3.prems"(1) Cons have "matchFrom ml da ns p (x # xs') = Some n"
        by (subst (asm) matchFrom.simps(3)) simp
      from "3.IH"(4)[OF Cons False this endsVisible_mono[OF ev]] "3.prems"(3)
      show ?thesis using Cons by simp
    qed
  qed
next
  case (4 ml da c ns p xs)
  have ev: "endsVisible False ns" using "4.prems"(2) by simp
  show ?case
  proof (cases "matchFrom ml da ns p xs")
    case (Some m)
    with "4.prems"(1) have "n = m"
      by (subst (asm) matchFrom.simps(4)) simp
    with "4.IH"(1)[OF _ endsVisible_mono[OF ev], of m b] Some "4.prems"(3) show ?thesis by simp
  next
    case None
    with "4.prems"(1) obtain x xs' m where xs: "xs = x # xs'" and c: "cls_match da c x"
      and m: "matchFrom ml da (LazyStar c # ns) (Some x) xs' = Some m" and n: "n = Suc m"
      by (subst (asm) matchFrom.simps(4)) (auto split: list.splits if_splits)
    have "endsVisible False (LazyStar c # ns)" using ev by simp
    from "4.IH"(2)[OF None xs c m this] show ?thesis using xs n by simp
  qed
next
  case (5 ml da c ns p xs)
  from "5.prems"(1) obtain x xs' m where xs: "xs = x # xs'" and c: "cls_match da c x"
    and m: "matchFrom ml da (Star c # ns) (Some x) xs' = Some m" and n: "n = Suc m"
    by (subst (asm) matchFrom.simps(5)) (auto split: list.splits if_splits)
  have "endsVisible False (Star c # ns)" using "5.prems"(2) by simp
  from "5.IH"[OF xs c m this] show ?case using xs n by simp
next
  case (6 ml da c ns p xs)
  have ev: "endsVisible b ns" "endsVisible (visibleCh c) ns" using "6.prems"(2) by simp_all
  show ?case
  proof (cases xs)
    case Nil
    with "6.prems"(1) have "matchFrom ml da ns p [] = Some n"
      by (subst (asm) matchFrom.simps(6)) simp
    from "6.IH"(1)[OF Nil this ev(1)] "6.prems"(3) show ?thesis using Nil by simp
  next
    case (Cons x xs')
    show ?thesis
    proof (cases "cls_match da c x")
      case True
      have v: "visibleCh c \<Longrightarrow> visibleAt (Some x)"
        using visibleCh_match[OF _ True] by (simp add: visibleAt_def)
      show ?thesis
      proof (cases "matchFrom ml da ns (Some x) xs'")
        case None
        with "6.prems"(1) Cons True have "matchFrom ml da ns p (x # xs') = Some n"
          by (subst (asm) matchFrom.simps(6)) simp
        from "6.IH"(3)[OF Cons True None this ev(1)] "6.prems"(3)
        show ?thesis using Cons by simp
      next
        case (Some m)
        with "6.prems"(1) Cons True have n: "n = Suc m"
          by (subst (asm) matchFrom.simps(6)) simp
        from "6.IH"(2)[OF Cons True Some ev(2) v] show ?thesis using Cons n by simp
      qed
    next
      case False
      with "6.prems"(1) Cons have "matchFrom ml da ns p (x # xs') = Some n"
        by (subst (asm) matchFrom.simps(6)) simp
      from "6.IH"(4)[OF Cons False this ev(1)] "6.prems"(3)
      show ?thesis using Cons by simp
    qed
  qed
next
  case (7 ml da ns p xs)
  from "7.prems"(1) have m: "matchFrom ml da ns p xs = Some n"
    and d: "p = None \<or> (\<exists>c. p = Some c \<and> ml \<and> isLineTerminator c)"
    by (subst (asm) matchFrom.simps(7), auto split: option.splits if_splits)+
  have ev: "endsVisible b ns" using "7.prems"(2) by simp
  from d show ?case
  proof
    assume "p = None"
    from "7.IH"(1)[OF this m ev] "7.prems"(3) show ?thesis by simp
  next
    assume "\<exists>c. p = Some c \<and> ml \<and> isLineTerminator c"
    then obtain c where c: "p = Some c" "ml \<and> isLineTerminator c" by blast
    from "7.IH"(2)[OF c m ev] "7.prems"(3) show ?thesis by simp
  qed
next
  case (8 ml da ns p xs)
  from "8.prems"(1) have m: "matchFrom ml da ns p xs = Some n"
    and d: "xs = [] \<or> (\<exists>x xs'. xs = x # xs' \<and> ml \<and> isLineTerminator x)"
    by (subst (asm) matchFrom.simps(8), auto split: list.splits if_splits)+
  have ev: "endsVisible b ns" using "8.prems"(2) by simp
  from d show ?case
  proof
    assume "xs = []"
    from "8.IH"(1)[OF this m ev] "8.prems"(3) show ?thesis by simp
  next
    assume "\<exists>x xs'. xs = x # xs' \<and> ml \<and> isLineTerminator x"
    then obtain x xs' where c: "xs = x # xs'" "ml \<and> isLineTerminator x" by blast
    from "8.IH"(2)[OF c m ev] "8.prems"(3) show ?thesis by simp
  qed
qed

lemma matchFrom_startsVisible:
  "matchFrom ml da ns p xs = Some n \<Longrightarrow> startsVisible ns \<Longrightarrow> xs \<noteq> [] \<and> \<not> isWhiteSpace (hd xs)"
proof (induction ns rule: startsVisible.induct)
  case (1 c ns)
  then show ?case
    by (subst (asm) matchFrom.simps(2)) (auto split: list.splits if_splits dest: visibleCh_match)
next
  case (2 ns)
  then show ?case
    by (subst (asm) matchFrom.simps(7)) (auto split: option.splits if_splits)
qed simp_all

subsection \<open>The normalization steps as functions on the text\<close>

lemma replaceAllFrom_search:
  assumes "li \<le> length t" and "0 < minLen (source r)"
  shows "replaceAllFrom r repl t li li =
           (case search (multiline r) (dotAll r) (source r) (before t li) (drop li t) of
              None \<Rightarrow> drop li t
            | Some (k, n) \<Rightarrow>
                take k (drop li t) @ repl @ replaceAllFrom r repl t (li + k + n) (li + k + n))"
proof (cases "search (multiline r) (dotAll r) (source r) (before t li) (drop li t)")
  case None
  with assms(1) have "exec_at r t li = None" by (simp add: exec_at_def)
  with None show ?thesis by (simp add: replaceAllFrom.simps[of r repl t li li])
next
  case (Some a)
  obtain k n where a: "a = (k, n)" by (cases a)
  with Some assms(1) have e: "exec_at r t li = Some (li + k, n)" by (simp add: exec_at_def)
  from exec_at_bounds(1)[OF e] assms(2) have "n \<noteq> 0" by simp
  with e Some a show ?thesis
    by (simp add: replaceAllFrom.simps[of r repl t li li] add.assoc)
qed

lemma replaceAllFrom_eq:
  assumes m: "0 < minLen (source r)"
    and a: "\<And>p xs. search (multiline r) (dotAll r) (source r) p xs = None \<Longrightarrow> F p xs = xs"
    and b: "\<And>p xs k n. search (multiline r) (dotAll r) (source r) p xs = Some (k, n) \<Longrightarrow>
              F p xs = take k xs @ repl @ F (Some (xs ! (k + n - 1))) (drop (k + n) xs)"
    and li: "li \<le> length t"
  shows "replaceAllFrom r repl t li li = F (before t li) (drop li t)"
  using li
proof (induction "length t - li" arbitrary: li rule: less_induct)
  case less
  show ?case
  proof (cases "search (multiline r) (dotAll r) (source r) (before t li) (drop li t)")
    case None
    with a[OF None] replaceAllFrom_search[OF less.prems m, of repl] show ?thesis by simp
  next
    case (Some c)
    obtain k n where c: "c = (k, n)" by (cases c)
    note s = Some[unfolded c]
    from s less.prems have e: "exec_at r t li = Some (li + k, n)" by (simp add: exec_at_def)
    from exec_at_bounds[OF e] m have n: "0 < n" and le: "li + k + n \<le> length t" by simp_all
    have "length t - (li + k + n) < length t - li" using n le less.prems by simp
    from less.hyps[OF this le]
    have ih: "replaceAllFrom r repl t (li + k + n) (li + k + n)
                = F (before t (li + k + n)) (drop (li + k + n) t)" .
    have bf: "before t (li + k + n) = Some (drop li t ! (k + n - 1))"
      using n le by (simp add: before_def add.assoc)
    have dr: "drop (li + k + n) t = drop (k + n) (drop li t)"
      by (simp add: add.commute add.left_commute)
    from b[OF s] ih bf dr replaceAllFrom_search[OF less.prems m, of repl] s
    show ?thesis by simp
  qed
qed

lemma replace_global_eq:
  assumes "global r" and "0 < minLen (source r)"
    and "\<And>p xs. search (multiline r) (dotAll r) (source r) p xs = None \<Longrightarrow> F p xs = xs"
    and "\<And>p xs k n. search (multiline r) (dotAll r) (source r) p xs = Some (k, n) \<Longrightarrow>
              F p xs = take k xs @ repl @ F (Some (xs ! (k + n - 1))) (drop (k + n) xs)"
  shows "replace t r repl = F None t"
  using replaceAllFrom_eq[of r F repl 0 t, OF assms(2-4)] assms(1)
  by (simp add: replace_def before_def)

lemma invisible_match:
  "matchFrom ml da [Atom (Cls [Range 0x200B 0x200D, Single 0xFEFF])] p xs =
     (case xs of [] \<Rightarrow> None | x # xs' \<Rightarrow> if isInvisible x then Some 1 else None)"
  by (cases xs) (auto simp: matchFrom.simps isInvisible_def)

lemma invisible_search_None:
  "search ml da [Atom (Cls [Range 0x200B 0x200D, Single 0xFEFF])] p xs = None \<Longrightarrow>
     removeInvisible xs = xs"
  by (induction xs arbitrary: p)
     (auto simp: invisible_match removeInvisible_def split: if_splits option.splits)

lemma invisible_search_Some:
  "search ml da [Atom (Cls [Range 0x200B 0x200D, Single 0xFEFF])] p xs = Some (k, n) \<Longrightarrow>
     removeInvisible xs = take k xs @ removeInvisible (drop (k + n) xs)"
  by (induction xs arbitrary: p k)
     (auto simp: invisible_match removeInvisible_def split: if_splits option.splits)

lemma replace_invisible: "replace t invisibleCharacters [] = removeInvisible t"
proof -
  have s: "source invisibleCharacters = [Atom (Cls [Range 0x200B 0x200D, Single 0xFEFF])]"
    and g: "global invisibleCharacters"
    by (simp_all add: invisibleCharacters_def RegExp_def)
  show ?thesis
    by (rule replace_global_eq[where F = "\<lambda>p. removeInvisible", OF g])
       (simp_all add: s invisible_search_None invisible_search_Some)
qed

lemma horizontal_match [simp]: "cls_match da horizontal x = isHorizontal x"
  by (auto simp: isHorizontal_def)

lemma horizontal_no_terminator: "isHorizontal x \<Longrightarrow> \<not> isLineTerminator x"
  by (auto simp: isHorizontal_def isLineTerminator_def)

lemma eol_match: "matchFrom True da [Eol] p xs = (if lineEnd xs then Some 0 else None)"
  by (cases xs) (simp_all add: matchFrom.simps lineEnd_def)

lemma trailing_star:
  "matchFrom True da [Star horizontal, Eol] p xs =
     (if lineEnd (dropWhile isHorizontal xs) then Some (length (takeWhile isHorizontal xs))
      else None)"
proof (induction xs arbitrary: p)
  case Nil
  show ?case by (simp add: matchFrom.simps(3) eol_match)
next
  case (Cons x xs)
  show ?case
  proof (cases "isHorizontal x")
    case True
    with horizontal_no_terminator[OF True] Cons[of "Some x"] show ?thesis
      by (subst matchFrom.simps(3)) (simp add: eol_match lineEnd_def del: cls_match.simps)
  next
    case False
    then show ?thesis
      by (subst matchFrom.simps(3)) (simp add: eol_match del: cls_match.simps)
  qed
qed

lemma trailing_match:
  "matchFrom True da [Plus horizontal, Eol] p xs =
     (case xs of
        [] \<Rightarrow> None
      | x # xs' \<Rightarrow>
          if isHorizontal x \<and> lineEnd (dropWhile isHorizontal xs')
          then Some (Suc (length (takeWhile isHorizontal xs'))) else None)"
  by (cases xs) (simp_all add: matchFrom.simps(5) trailing_star del: cls_match.simps)

lemma lineEnd_stripTrailing: "lineEnd (stripTrailing xs) = lineEnd (dropWhile isHorizontal xs)"
proof (induction xs)
  case Nil
  show ?case by simp
next
  case (Cons x xs)
  then show ?case
    by (auto simp: lineEnd_def dest: horizontal_no_terminator)
qed

lemma stripTrailing_run:
  "lineEnd (dropWhile isHorizontal xs) \<Longrightarrow> stripTrailing xs = stripTrailing (dropWhile isHorizontal xs)"
  by (induction xs) (auto simp: lineEnd_stripTrailing)

lemma trailing_search_None:
  "search True da [Plus horizontal, Eol] p xs = None \<Longrightarrow> stripTrailing xs = xs"
proof (induction xs arbitrary: p)
  case Nil
  show ?case by simp
next
  case (Cons x xs)
  from Cons.prems have m: "matchFrom True da [Plus horizontal, Eol] p (x # xs) = None"
    and s: "search True da [Plus horizontal, Eol] (Some x) xs = None"
    by (auto split: option.splits)
  from m have "\<not> (isHorizontal x \<and> lineEnd (stripTrailing xs))"
    by (simp add: trailing_match lineEnd_stripTrailing split: if_splits)
  then have "stripTrailing (x # xs) = x # stripTrailing xs" by auto
  with Cons.IH[OF s] show ?case by simp
qed

lemma trailing_search_Some:
  "search True da [Plus horizontal, Eol] p xs = Some (k, n) \<Longrightarrow>
     stripTrailing xs = take k xs @ stripTrailing (drop (k + n) xs)"
proof (induction xs arbitrary: p k)
  case Nil
  then show ?case by (simp add: trailing_match)
next
  case (Cons x xs)
  show ?case
  proof (cases "matchFrom True da [Plus horizontal, Eol] p (x # xs)")
    case (Some m)
    with Cons.prems have k: "k = 0" and n: "n = m" by simp_all
    from Some have h: "isHorizontal x" and e: "lineEnd (dropWhile isHorizontal xs)"
      and m: "m = Suc (length (takeWhile isHorizontal xs))"
      by (simp_all add: trailing_match split: if_splits)
    have "stripTrailing (x # xs) = stripTrailing xs"
      using h e by (simp add: lineEnd_stripTrailing)
    also have "\<dots> = stripTrailing (dropWhile isHorizontal xs)" by (rule stripTrailing_run[OF e])
    finally show ?thesis by (simp add: k n m dropWhile_eq_drop)
  next
    case None
    with Cons.prems obtain k' where k: "k = Suc k'"
      and s: "search True da [Plus horizontal, Eol] (Some x) xs = Some (k', n)"
      by auto
    from None have "\<not> (isHorizontal x \<and> lineEnd (stripTrailing xs))"
      by (simp add: trailing_match lineEnd_stripTrailing split: if_splits)
    then have "stripTrailing (x # xs) = x # stripTrailing xs" by auto
    with Cons.IH[OF s] show ?thesis by (simp add: k)
  qed
qed

lemma replace_trailing: "replace t trailingWhitespace [] = stripTrailing t"
proof -
  have s: "source trailingWhitespace = [Plus horizontal, Eol]"
    and g: "global trailingWhitespace" and m: "multiline trailingWhitespace"
    by (simp_all add: trailingWhitespace_def RegExp_def)
  show ?thesis
    by (rule replace_global_eq[where F = "\<lambda>p. stripTrailing", OF g])
       (simp_all add: s m trailing_search_None trailing_search_Some)
qed

lemma lineFeed_parts: "upToLastLineFeed w @ afterLastLineFeed w = w"
proof -
  have "rev (takeWhile (\<lambda>c. c \<noteq> 0x0A) (rev w) @ dropWhile (\<lambda>c. c \<noteq> 0x0A) (rev w)) = w"
    by simp
  then show ?thesis
    unfolding upToLastLineFeed_def afterLastLineFeed_def rev_append .
qed

lemma upTo_Cons: "0x0A \<in> set w \<Longrightarrow> upToLastLineFeed (y # w) = y # upToLastLineFeed w"
  by (simp add: upToLastLineFeed_def dropWhile_append1)

lemma upTo_first:
  assumes "0x0A \<notin> set w"
  shows "upToLastLineFeed (0x0A # w) = [0x0A]"
proof -
  have "\<And>c. c \<in> set (rev w) \<Longrightarrow> c \<noteq> 0x0A" using assms by auto
  from dropWhile_append2[of "rev w" "\<lambda>c. c \<noteq> 0x0A" "[0x0A]", OF this]
  show ?thesis by (simp add: upToLastLineFeed_def)
qed

lemma drop_upTo:
  "drop (length (upToLastLineFeed (takeWhile P xs))) xs
     = afterLastLineFeed (takeWhile P xs) @ dropWhile P xs"
proof -
  have "xs = upToLastLineFeed (takeWhile P xs) @ afterLastLineFeed (takeWhile P xs) @ dropWhile P xs"
    using lineFeed_parts[of "takeWhile P xs"] takeWhile_dropWhile_id[of P xs]
    by (metis append.assoc)
  then show ?thesis by (metis append_eq_conv_conj)
qed

lemma lineFeed_whitespace: "isWhiteSpace 0x0A"
  by (simp add: isWhiteSpace_def)

lemma ws_match [simp]: "cls_match da ws x = isWhiteSpace x"
  by simp

lemma blank_match:
  "matchFrom ml da [Star ws, Atom (Ch 0x0A)] p xs =
     (if 0x0A \<in> set (takeWhile isWhiteSpace xs)
      then Some (length (upToLastLineFeed (takeWhile isWhiteSpace xs))) else None)"
proof (induction xs arbitrary: p)
  case Nil
  show ?case by (simp add: matchFrom.simps)
next
  case (Cons x xs)
  show ?case
  proof (cases "isWhiteSpace x")
    case False
    with lineFeed_whitespace have "x \<noteq> 0x0A" by auto
    with False show ?thesis
      by (subst matchFrom.simps(3)) (simp add: matchFrom.simps(2))
  next
    case True
    show ?thesis
    proof (cases "0x0A \<in> set (takeWhile isWhiteSpace xs)")
      case in_rest: True
      with True Cons[of "Some x"] show ?thesis
        by (subst matchFrom.simps(3)) (simp add: upTo_Cons)
    next
      case False
      with True Cons[of "Some x"] show ?thesis
        by (subst matchFrom.simps(3)) (auto simp: matchFrom.simps(1,2) upTo_first)
    qed
  qed
qed

lemma count_member: "2 \<le> count_list w c \<Longrightarrow> c \<in> set w"
  using count_list_0_iff[of w c] by auto

lemma count_one: "\<not> 2 \<le> count_list w c \<Longrightarrow> c \<in> set w \<Longrightarrow> count_list w c = 1"
  using count_list_0_iff[of w c] by auto

lemma two_more_match:
  "matchFrom ml da [Star ws, Atom (Ch 0x0A), Star ws, Atom (Ch 0x0A)] p xs =
     (if 2 \<le> count_list (takeWhile isWhiteSpace xs) 0x0A
      then Some (length (upToLastLineFeed (takeWhile isWhiteSpace xs))) else None)"
proof (induction xs arbitrary: p)
  case Nil
  show ?case by (simp add: matchFrom.simps)
next
  case (Cons x xs)
  let ?w = "takeWhile isWhiteSpace xs"
  show ?case
  proof (cases "isWhiteSpace x")
    case False
    with lineFeed_whitespace have "x \<noteq> 0x0A" by auto
    with False show ?thesis
      by (subst matchFrom.simps(3)) (simp add: matchFrom.simps(2))
  next
    case True
    show ?thesis
    proof (cases "2 \<le> count_list ?w 0x0A")
      case two: True
      then have "0x0A \<in> set ?w" by (rule count_member)
      with two True Cons[of "Some x"] show ?thesis
        by (subst matchFrom.simps(3)) (simp add: upTo_Cons)
    next
      case False
      show ?thesis
      proof (cases "x = 0x0A \<and> 0x0A \<in> set ?w")
        case yes: True
        with count_one[OF False] have "count_list ?w 0x0A = 1" by simp
        with yes False True Cons[of "Some x"] show ?thesis
          by (subst matchFrom.simps(3)) (simp add: matchFrom.simps(2) blank_match upTo_Cons)
      next
        case no: False
        then have "\<not> 2 \<le> count_list (x # ?w) 0x0A"
          using False by (auto simp: count_list_0_iff)
        with no False True Cons[of "Some x"] show ?thesis
          by (subst matchFrom.simps(3)) (auto simp: matchFrom.simps(2) blank_match)
      qed
    qed
  qed
qed

lemma collapse_match:
  "matchFrom ml da [Atom (Ch 0x0A), Star ws, Atom (Ch 0x0A), Star ws, Atom (Ch 0x0A)] p xs =
     (case xs of
        [] \<Rightarrow> None
      | x # xs' \<Rightarrow>
          if x = 0x0A \<and> 2 \<le> count_list (takeWhile isWhiteSpace xs') 0x0A
          then Some (Suc (length (upToLastLineFeed (takeWhile isWhiteSpace xs')))) else None)"
  by (cases xs) (simp_all add: matchFrom.simps(2) two_more_match)

lemma collapseBlank_skip:
  "0x0A \<notin> set (takeWhile isWhiteSpace ys) \<Longrightarrow>
     collapseBlank ys = takeWhile isWhiteSpace ys @ collapseBlank (dropWhile isWhiteSpace ys)"
  by (induction ys) auto

lemma after_no_lineFeed: "0x0A \<notin> set (afterLastLineFeed w)"
  unfolding afterLastLineFeed_def by (auto dest: set_takeWhileD)

lemma collapseBlank_after:
  "collapseBlank (afterLastLineFeed (takeWhile isWhiteSpace xs) @ dropWhile isWhiteSpace xs)
     = afterLastLineFeed (takeWhile isWhiteSpace xs) @ collapseBlank (dropWhile isWhiteSpace xs)"
proof -
  let ?v = "afterLastLineFeed (takeWhile isWhiteSpace xs)"
  let ?d = "dropWhile isWhiteSpace xs"
  have v: "\<forall>c \<in> set ?v. isWhiteSpace c"
    using lineFeed_parts[of "takeWhile isWhiteSpace xs"]
    by (metis Un_iff set_append set_takeWhileD)
  have d: "takeWhile isWhiteSpace ?d = []"
    by (rule takeWhile_dropWhile_nil)
  have t: "takeWhile isWhiteSpace (?v @ ?d) = ?v" and dd: "dropWhile isWhiteSpace (?v @ ?d) = ?d"
    using v d by (simp_all add: takeWhile_append2 dropWhile_append2 takeWhile_eq_Nil_iff)
  from collapseBlank_skip[of "?v @ ?d"] t dd after_no_lineFeed[of "takeWhile isWhiteSpace xs"]
  show ?thesis by simp
qed

lemma collapse_search_None:
  "search ml da collapsePattern p xs = None \<Longrightarrow> collapseBlank xs = xs"
proof (induction xs arbitrary: p)
  case Nil
  show ?case by simp
next
  case (Cons x xs)
  from Cons.prems have m: "matchFrom ml da collapsePattern p (x # xs) = None"
    and s: "search ml da collapsePattern (Some x) xs = None"
    by (auto split: option.splits)
  from m have "\<not> (x = 0x0A \<and> 2 \<le> count_list (takeWhile isWhiteSpace xs) 0x0A)"
    by (simp add: collapse_match split: if_splits)
  with Cons.IH[OF s] show ?case by auto
qed

lemma collapse_search_Some:
  "search ml da collapsePattern p xs = Some (k, n) \<Longrightarrow>
     collapseBlank xs = take k xs @ [0x0A, 0x0A] @ collapseBlank (drop (k + n) xs)"
proof (induction xs arbitrary: p k)
  case Nil
  then show ?case by (simp add: collapse_match)
next
  case (Cons x xs)
  show ?case
  proof (cases "matchFrom ml da collapsePattern p (x # xs)")
    case (Some m)
    with Cons.prems have k: "k = 0" and n: "n = m" by simp_all
    from Some have c: "x = 0x0A \<and> 2 \<le> count_list (takeWhile isWhiteSpace xs) 0x0A"
      and m: "m = Suc (length (upToLastLineFeed (takeWhile isWhiteSpace xs)))"
      by (simp_all add: collapse_match split: if_splits)
    from c have "collapseBlank (x # xs) =
        [0x0A, 0x0A] @ afterLastLineFeed (takeWhile isWhiteSpace xs)
          @ collapseBlank (dropWhile isWhiteSpace xs)"
      by simp
    also have "\<dots> = [0x0A, 0x0A] @ collapseBlank (drop (k + n) (x # xs))"
      by (simp add: k n m drop_upTo collapseBlank_after)
    finally show ?thesis by (simp add: k)
  next
    case None
    with Cons.prems obtain k' where k: "k = Suc k'"
      and s: "search ml da collapsePattern (Some x) xs = Some (k', n)"
      by auto
    from None have "\<not> (x = 0x0A \<and> 2 \<le> count_list (takeWhile isWhiteSpace xs) 0x0A)"
      by (simp add: collapse_match split: if_splits)
    then have "collapseBlank (x # xs) = x # collapseBlank xs" by auto
    with Cons.IH[OF s] show ?thesis by (simp add: k)
  qed
qed

lemma replace_collapse: "replace t collapseBlankLines [0x0A, 0x0A] = collapseBlank t"
proof -
  have s: "source collapseBlankLines = collapsePattern"
    and g: "global collapseBlankLines"
    by (simp_all add: collapseBlankLines_def RegExp_def)
  show ?thesis
    by (rule replace_global_eq[where F = "\<lambda>p. collapseBlank", OF g])
       (simp_all add: s collapse_search_None collapse_search_Some del: collapseBlank.simps)
qed

lemma replace_leading: "replace t leadingBlankLine [] = dropLeadingBlankLines t"
proof -
  have g: "\<not> global leadingBlankLine" by (simp add: leadingBlankLine_def RegExp_def)
  show ?thesis
    by (simp add: replace_def g exec_leading blank_match dropLeadingBlankLines_def drop_upTo)
qed

lemma normalizationSteps_words:
  "normalizationSteps t
     = removeInvisible (dropLeadingBlankLines (stripTrailing (collapseBlank t)))"
  by (simp only: normalizationSteps_def replace_collapse replace_trailing replace_leading
        replace_invisible)

subsection \<open>Spans are trimmed matches\<close>

lemma table_spans:
  assumes ok: "\<forall>pt \<in> set pts. global (regex pt) \<and> 0 < minLen (source (regex pt))
                  \<and> startsVisible (source (regex pt))"
  shows "\<exists>rs pts'. getRangesForPatterns (\<lambda>i. i) t pts languageId = Some (rs, pts')
           \<and> (\<forall>sp \<in> set rs. tokenSpan pts languageId t sp)"
proof -
  from ok have "\<forall>pt \<in> set pts. global (regex pt) \<and> 0 < minLen (source (regex pt))"
    by simp
  from forEachPattern_scan[OF this, of "\<lambda>i. i" t languageId "[]"]
  obtain ms pts' where
    f: "getRangesForPatterns (\<lambda>i. i) t pts languageId =
          Some (map (\<lambda>(pt, i, n). (i, i + n)) ms, pts')"
    and m: "\<forall>(pt, i, n) \<in> set ms. pt \<in> set pts \<and> applies pt languageId \<and> matchAt (regex pt) t i n"
    by (auto simp: getRangesForPatterns_def)
  have "tokenSpan pts languageId t (i, i + n)" if "(pt, i, n) \<in> set ms" for pt i n
  proof -
    from m that have pt: "pt \<in> set pts" and a: "applies pt languageId"
      and ma: "matchAt (regex pt) t i n" by auto
    let ?r = "regex pt"
    from ma have n: "0 < n" and le: "i + n \<le> length t"
      and mf: "matchFrom (multiline ?r) (dotAll ?r) (source ?r) (before t i) (drop i t) = Some n"
      by (simp_all add: matchAt_def)
    from ok pt have sv: "startsVisible (source ?r)" by simp
    from matchFrom_startsVisible[OF mf sv] n le have first: "\<not> isWhiteSpace (t ! i)"
      by (simp add: hd_drop_conv_nth)
    have last: "\<not> isWhiteSpace (t ! (i + n - 1))" if ev: "endsVisible False (source ?r)"
    proof -
      from matchFrom_endsVisible[OF mf ev] have "visibleAt (lastOf (before t i) (drop i t) n)"
        by simp
      moreover have "drop i t ! (n - 1) = t ! (i + n - 1)" using n le by simp
      ultimately show ?thesis using n by (simp add: lastOf_def visibleAt_def)
    qed
    from pt a ma n le first last show ?thesis
      by (auto simp: tokenSpan_def)
  qed
  with m have "\<forall>sp \<in> set (map (\<lambda>(pt, i, n). (i, i + n)) ms). tokenSpan pts languageId t sp"
    by auto
  with f show ?thesis by blast
qed

lemma highlight_tables_startsVisible:
  "\<forall>pt \<in> set (printPatterns @ commentPatterns). startsVisible (source (regex pt))"
  by (simp add: table_defs isWhiteSpace_def)

lemma forEachPattern_language:
  "\<forall>pt \<in> set pts. applies pt l1 = applies pt l2 \<Longrightarrow>
     forEachPattern positionAt t l1 pts ranges = forEachPattern positionAt t l2 pts ranges"
proof (induction pts arbitrary: ranges)
  case Nil
  show ?case by simp
next
  case (Cons pt pts)
  then have a: "applies pt l1 = applies pt l2"
    and r: "\<And>ranges. forEachPattern positionAt t l1 pts ranges
                       = forEachPattern positionAt t l2 pts ranges"
    by simp_all
  show ?case by (simp add: a r cong: option.case_cong)
qed

lemmas highlight_defs =
  highlightPatterns_def getRangesForPatterns_def exec_def execWhile.simps

section \<open>The claims\<close>

text \<open>
  C1, as the code has it. Cleaning is not idempotent: the table is applied once, in its
  order, so a pattern applied late can leave a text that a pattern applied early matches.
  What holds is that a second cleaning changes nothing exactly when the cleaned text is
  settled, that is, when no applicable table pattern and none of the four normalization
  expressions matches in it; otherwise the second cleaning differs from the first.
\<close>

theorem removePatterns_twice:
  "removePatterns (removePatterns t languageId) languageId = removePatterns t languageId
     \<longleftrightarrow> settled languageId (removePatterns t languageId)"
  by (rule removePatterns_fixed_iff)

theorem removePatterns_twice_witness:
  "settled (js ''javascript'') (removePatterns (js ''x = 1;'') (js ''javascript''))
   \<and> removePatterns (removePatterns (js ''x = 1;'') (js ''javascript'')) (js ''javascript'')
       = removePatterns (js ''x = 1;'') (js ''javascript'')"
proof -
  have s: "settled (js ''javascript'') (removePatterns (js ''x = 1;'') (js ''javascript''))"
    by (simp add: settled_def removePatterns_def table_defs run_defs)
  with removePatterns_twice[of "js ''x = 1;''" "js ''javascript''"] show ?thesis
    by blast
qed

text \<open>
  C1 as stated fails: for the JavaScript text \<^verbatim>\<open>/**/console.log(1);\<close> the first
  cleaning removes the block comment only, since the \<^verbatim>\<open>console.log\<close> pattern is applied
  before it and needs the call at the start of its line; the result is
  \<^verbatim>\<open>console.log(1);\<close>, which the second cleaning removes.
\<close>

theorem removePatterns_not_idempotent:
  "removePatterns (js ''/**/console.log(1);'') (js ''javascript'') = js ''console.log(1);''
   \<and> removePatterns (removePatterns (js ''/**/console.log(1);'') (js ''javascript''))
         (js ''javascript'') = []"
proof -
  have a: "removePatterns (js ''/**/console.log(1);'') (js ''javascript'') = js ''console.log(1);''"
    by (simp add: removePatterns_def table_defs run_defs)
  have b: "removePatterns (js ''console.log(1);'') (js ''javascript'') = []"
    by (simp add: removePatterns_def table_defs run_defs)
  from a b show ?thesis by simp
qed

text \<open>
  C2, as the code has it. For \<^verbatim>\<open>x = 1; // console.log(x);\<close> and the language
  \<^verbatim>\<open>javascript\<close> the clean path returns the text as it is: the \<^verbatim>\<open>console.log\<close>
  pattern and the line-comment pattern both begin with \<^verbatim>\<open>^\s*\<close>, so neither matches a
  comment that follows code on its line. A line that begins with the comment, as
  \<^verbatim>\<open>// console.log(x);\<close> does, is removed whole.
\<close>

theorem removePatterns_comment_after_code:
  "removePatterns (js ''x = 1; // console.log(x);'') (js ''javascript'')
     = js ''x = 1; // console.log(x);''
   \<and> removePatterns (js ''// console.log(x);'') (js ''javascript'') = []"
proof -
  have a: "removePatterns (js ''x = 1; // console.log(x);'') (js ''javascript'')
             = js ''x = 1; // console.log(x);''"
    by (simp add: removePatterns_def table_defs run_defs)
  have b: "removePatterns (js ''// console.log(x);'') (js ''javascript'') = []"
    by (simp add: removePatterns_def table_defs run_defs)
  from a b show ?thesis by simp
qed

text \<open>
  C2 as stated fails: the line is not removed, the cleaned text is not empty and still
  ends with \<^verbatim>\<open>console.log(x);\<close>.
\<close>

theorem removePatterns_line_not_removed:
  "removePatterns (js ''x = 1; // console.log(x);'') (js ''javascript'') \<noteq> []
   \<and> drop 10 (removePatterns (js ''x = 1; // console.log(x);'') (js ''javascript''))
       = js ''console.log(x);''"
  by (simp add: removePatterns_def table_defs run_defs)

text \<open>
  C3. Length monotonicity: for every text and every language identifier the cleaned text
  is at most as long as the text. Every table pattern is replaced by the empty string, the
  blank-line collapse puts two code units in the place of at least three, and the other
  three normalization steps delete.
\<close>

theorem removePatterns_length: "length (removePatterns t languageId) \<le> length t"
proof -
  let ?a = "applyPatterns removalPatterns languageId t"
  let ?b = "replace ?a collapseBlankLines [0x0A, 0x0A]"
  let ?c = "replace ?b trailingWhitespace []"
  let ?d = "replace ?c leadingBlankLine []"
  have "length (replace ?d invisibleCharacters []) \<le> length ?d"
    by (rule replace_length) simp
  also have "length ?d \<le> length ?c"
    by (rule replace_length) simp
  also have "length ?c \<le> length ?b"
    by (rule replace_length) simp
  also have "length ?b \<le> length ?a"
    by (rule replace_length) (simp add: collapseBlankLines_def RegExp_def)
  also have "length ?a \<le> length t"
    by (rule applyPatterns_length)
  finally show ?thesis
    by (simp add: removePatterns_def Let_def)
qed


text \<open>
  C4, as the code has it. Every span of the highlight path, print or comment, is a
  match of an applicable pattern of its table: it is not empty, it lies in the text and it
  begins with the pattern's first literal, so it has no leading whitespace. It has no
  trailing whitespace either when the pattern ends with a literal: the patterns for
  \<^verbatim>\<open>console.log\<close>, \<^verbatim>\<open>print\<close>, \<^verbatim>\<open>printf\<close>, \<^verbatim>\<open>std::cout\<close> and
  \<^verbatim>\<open>System.out.println\<close>, and the block, mark-up and triple-quote comment patterns.
  The patterns for \<^verbatim>\<open>puts\<close> and \<^verbatim>\<open>echo\<close> and the two line-comment patterns end with
  a repetition that takes whitespace, and their spans may end with it.
\<close>

theorem highlightPatterns_spans:
  "(\<exists>printRanges commentRanges.
      highlightPatterns (\<lambda>i. i) t languageId = Some (printRanges, commentRanges)
      \<and> (\<forall>sp \<in> set printRanges. tokenSpan printPatterns languageId t sp)
      \<and> (\<forall>sp \<in> set commentRanges. tokenSpan commentPatterns languageId t sp))
   \<and> map (\<lambda>pt. endsVisible False (source (regex pt))) printPatterns
       = [True, True, True, True, True, False, False]
   \<and> map (\<lambda>pt. endsVisible False (source (regex pt))) commentPatterns
       = [False, True, False, True, True, True]"
proof -
  have p: "\<forall>pt \<in> set printPatterns. global (regex pt) \<and> 0 < minLen (source (regex pt))
              \<and> startsVisible (source (regex pt))"
    and c: "\<forall>pt \<in> set commentPatterns. global (regex pt) \<and> 0 < minLen (source (regex pt))
              \<and> startsVisible (source (regex pt))"
    using highlight_tables_scannable highlight_tables_startsVisible by auto
  from table_spans[OF p, of t languageId] obtain ps ps' where
    ps: "getRangesForPatterns (\<lambda>i. i) t printPatterns languageId = Some (ps, ps')"
        "\<forall>sp \<in> set ps. tokenSpan printPatterns languageId t sp"
    by blast
  from table_spans[OF c, of t languageId] obtain cs cs' where
    cs: "getRangesForPatterns (\<lambda>i. i) t commentPatterns languageId = Some (cs, cs')"
        "\<forall>sp \<in> set cs. tokenSpan commentPatterns languageId t sp"
    by blast
  have "highlightPatterns (\<lambda>i. i) t languageId = Some (ps, cs)"
    using ps(1) cs(1) by (simp add: highlightPatterns_def)
  moreover have "map (\<lambda>pt. endsVisible False (source (regex pt))) printPatterns
                   = [True, True, True, True, True, False, False]"
    by (simp add: table_defs isWhiteSpace_def)
  moreover have "map (\<lambda>pt. endsVisible False (source (regex pt))) commentPatterns
                   = [False, True, False, True, True, True]"
    by (simp add: table_defs isWhiteSpace_def)
  ultimately show ?thesis using ps(2) cs(2) by blast
qed

theorem highlightPatterns_spans_witness:
  "highlightPatterns (\<lambda>i. i) (js ''/* a */ console.log(1);'') (js ''javascript'')
     = Some ([(8, 23)], [(0, 7)])
   \<and> tokenSpan printPatterns (js ''javascript'') (js ''/* a */ console.log(1);'') (8, 23)
   \<and> tokenSpan commentPatterns (js ''javascript'') (js ''/* a */ console.log(1);'') (0, 7)"
proof -
  have e: "highlightPatterns (\<lambda>i. i) (js ''/* a */ console.log(1);'') (js ''javascript'')
             = Some ([(8, 23)], [(0, 7)])"
    by (simp add: highlight_defs table_defs run_defs)
  with highlightPatterns_spans[of "js ''/* a */ console.log(1);''" "js ''javascript''"]
  show ?thesis by simp
qed

text \<open>
  C4 as stated fails: in the JavaScript text \<^verbatim>\<open>// a \<close> the comment span is the whole
  text and ends with a space, and in the Ruby text \<^verbatim>\<open>puts x\<close> followed by a line feed
  the print span ends with the line feed.
\<close>

theorem highlightPatterns_trailing_whitespace:
  "highlightPatterns (\<lambda>i. i) (js ''// a '') (js ''javascript'') = Some ([], [(0, 5)])
   \<and> isWhiteSpace (js ''// a '' ! (5 - 1))
   \<and> highlightPatterns (\<lambda>i. i) (js ''puts x'' @ [0x0A]) (js ''ruby'') = Some ([(0, 7)], [])
   \<and> isWhiteSpace ((js ''puts x'' @ [0x0A]) ! (7 - 1))"
proof -
  have a: "highlightPatterns (\<lambda>i. i) (js ''// a '') (js ''javascript'') = Some ([], [(0, 5)])"
    by (simp add: highlight_defs table_defs run_defs)
  have b: "highlightPatterns (\<lambda>i. i) (js ''puts x'' @ [0x0A]) (js ''ruby'') = Some ([(0, 7)], [])"
    by (simp add: highlight_defs table_defs run_defs)
  have c: "isWhiteSpace (js ''// a '' ! (5 - 1))" "isWhiteSpace ((js ''puts x'' @ [0x0A]) ! (7 - 1))"
    by (simp_all add: js_def isWhiteSpace_def)
  from a b c show ?thesis by simp
qed

text \<open>
  C5. Both entry points return for every text and language identifier. The clean path is
  the function \<open>removePatterns\<close>, whose only loop, the replacement of every match, was
  shown to terminate where it is defined (the cursor passes each match, and an empty match
  by one). The highlight path returns a pair of range lists, whatever the conversion of
  offsets: each of its patterns is global and matches no empty string, so every exec moves
  the cursor forward.
\<close>

theorem highlightPatterns_total:
  "(\<exists>printRanges commentRanges.
      highlightPatterns positionAt t languageId = Some (printRanges, commentRanges))
   \<and> (\<forall>pt \<in> set (printPatterns @ commentPatterns).
        global (regex pt)
        \<and> (\<forall>p xs. matchFrom (multiline (regex pt)) (dotAll (regex pt)) (source (regex pt)) p xs
                     \<noteq> Some 0))"
proof -
  have p: "\<forall>pt \<in> set printPatterns. global (regex pt) \<and> 0 < minLen (source (regex pt))"
    and c: "\<forall>pt \<in> set commentPatterns. global (regex pt) \<and> 0 < minLen (source (regex pt))"
    using highlight_tables_scannable by auto
  from forEachPattern_scan[OF p, of positionAt t languageId "[]"] obtain ps ps' where
    ps: "getRangesForPatterns positionAt t printPatterns languageId = Some (ps, ps')"
    by (auto simp: getRangesForPatterns_def)
  from forEachPattern_scan[OF c, of positionAt t languageId "[]"] obtain cs cs' where
    cs: "getRangesForPatterns positionAt t commentPatterns languageId = Some (cs, cs')"
    by (auto simp: getRangesForPatterns_def)
  have "highlightPatterns positionAt t languageId = Some (ps, cs)"
    using ps cs by (simp add: highlightPatterns_def)
  moreover have "matchFrom (multiline (regex pt)) (dotAll (regex pt)) (source (regex pt)) p xs
                   \<noteq> Some 0"
    if "pt \<in> set (printPatterns @ commentPatterns)" for pt p xs
    using highlight_tables_scannable that matchFrom_bounds[of _ _ "source (regex pt)" p xs 0]
    by fastforce
  ultimately show ?thesis using highlight_tables_scannable by blast
qed

theorem highlightPatterns_total_witness:
  "highlightPatterns (\<lambda>i. i) (js ''// a'') (js ''javascript'') = Some ([], [(0, 4)])
   \<and> hd commentPatterns \<in> set (printPatterns @ commentPatterns)
   \<and> global (regex (hd commentPatterns))
   \<and> matchFrom True False (source (regex (hd commentPatterns))) None (js ''// a'') \<noteq> Some 0"
proof -
  have e: "highlightPatterns (\<lambda>i. i) (js ''// a'') (js ''javascript'') = Some ([], [(0, 4)])"
    by (simp add: highlight_defs table_defs run_defs)
  have m: "hd commentPatterns \<in> set (printPatterns @ commentPatterns)"
    by (simp add: commentPatterns_def)
  have f: "multiline (regex (hd commentPatterns))" "\<not> dotAll (regex (hd commentPatterns))"
    by (simp_all add: commentPatterns_def RegExp_def)
  from highlightPatterns_total[of "\<lambda>i. i" "js ''// a''" "js ''javascript''"] m
  have "global (regex (hd commentPatterns))
        \<and> matchFrom (multiline (regex (hd commentPatterns))) (dotAll (regex (hd commentPatterns)))
             (source (regex (hd commentPatterns))) None (js ''// a'') \<noteq> Some 0"
    by blast
  with e m f show ?thesis by simp
qed

text \<open>
  C6, as the code has it. A language identifier that no entry of the removal table
  lists, \<^verbatim>\<open>plaintext\<close> among them, selects no removal pattern: the table leaves
  the text as it is and the cleaned text is the four replacements of the normalization
  applied to the text. In words these are: step 3 replaces a line feed that has two or
  more line feeds in the whitespace after it, with that whitespace up to its last line
  feed, by two line feeds; step 4 strips the trailing spaces and tabs of every line;
  step 5 removes every leading blank line; step 6 removes the invisible characters.
\<close>

theorem removePatterns_unknown_language:
  "removePatterns t (js ''plaintext'') = normalizationSteps t
   \<and> ((\<forall>pt \<in> set removalPatterns. \<not> applies pt languageId)
        \<longrightarrow> filter (\<lambda>pt. applies pt languageId) removalPatterns = []
            \<and> applyPatterns removalPatterns languageId t = t
            \<and> removePatterns t languageId = normalizationSteps t)
   \<and> normalizationSteps t
       = removeInvisible (dropLeadingBlankLines (stripTrailing (collapseBlank t)))"
proof -
  have "removePatterns t (js ''plaintext'') = normalizationSteps t"
    by (simp add: removePatterns_def normalizationSteps_def applyPatterns_def applies_def
          table_defs)
  moreover have "applyPatterns removalPatterns languageId t = t
                 \<and> removePatterns t languageId = normalizationSteps t"
    if "\<forall>pt \<in> set removalPatterns. \<not> applies pt languageId"
    using that applyPatterns_unmatched[of removalPatterns languageId t]
    by (simp add: removePatterns_def normalizationSteps_def)
  ultimately show ?thesis
    using normalizationSteps_words[of t] by (simp add: filter_empty_conv)
qed

theorem removePatterns_unknown_language_witness:
  "filter (\<lambda>pt. applies pt (js ''markdown'')) removalPatterns = []
   \<and> removePatterns ([0x0A, 0x0A] @ js ''# title  '' @ [0x0A, 0x20, 0x0A, 0x0A] @ js ''x'')
        (js ''markdown'')
       = js ''# title'' @ [0x0A, 0x0A] @ js ''x''
   \<and> removeInvisible (dropLeadingBlankLines (stripTrailing (collapseBlank
          ([0x0A, 0x0A] @ js ''# title  '' @ [0x0A, 0x20, 0x0A, 0x0A] @ js ''x''))))
       = js ''# title'' @ [0x0A, 0x0A] @ js ''x''"
proof -
  let ?t = "[0x0A, 0x0A] @ js ''# title  '' @ [0x0A, 0x20, 0x0A, 0x0A] @ js ''x''"
  have a: "\<forall>pt \<in> set removalPatterns. \<not> applies pt (js ''markdown'')"
    by (simp add: applies_def table_defs)
  have n: "normalizationSteps ?t = js ''# title'' @ [0x0A, 0x0A] @ js ''x''"
    by (simp add: normalizationSteps_def table_defs run_defs)
  from removePatterns_unknown_language[of ?t "js ''markdown''"] a n
  show ?thesis by (simp add: filter_empty_conv)
qed

text \<open>
  C6 as stated fails: the cleaned text is not the normalization as the specification
  words it. Of the text of two line feeds and \<^verbatim>\<open>x\<close> the clean path leaves \<^verbatim>\<open>x\<close>,
  where stripping a single leading blank line leaves a line feed and \<^verbatim>\<open>x\<close>; and in
  \<^verbatim>\<open>a\<close>, line feed, space, two line feeds, \<^verbatim>\<open>b\<close> the clean path collapses the three
  line feeds to two although they are not consecutive.
\<close>

theorem removePatterns_not_normalize:
  "removePatterns [0x0A, 0x0A, 0x78] (js ''plaintext'') = [0x78]
   \<and> normalize [0x0A, 0x0A, 0x78] = [0x0A, 0x78]
   \<and> removePatterns [0x61, 0x0A, 0x20, 0x0A, 0x0A, 0x62] (js ''plaintext'')
       = [0x61, 0x0A, 0x0A, 0x62]
   \<and> normalize [0x61, 0x0A, 0x20, 0x0A, 0x0A, 0x62] = [0x61, 0x0A, 0x0A, 0x0A, 0x62]"
proof -
  have a: "removePatterns [0x0A, 0x0A, 0x78] (js ''plaintext'') = [0x78]"
    by (simp add: removePatterns_def table_defs run_defs)
  have b: "removePatterns [0x61, 0x0A, 0x20, 0x0A, 0x0A, 0x62] (js ''plaintext'')
             = [0x61, 0x0A, 0x0A, 0x62]"
    by (simp add: removePatterns_def table_defs run_defs)
  have c: "normalize [0x0A, 0x0A, 0x78] = [0x0A, 0x78]"
    by (simp add: normalize_def removeInvisible_def isInvisible_def stripSingleBlankLine_def
          isHorizontal_def lineEnd_def isLineTerminator_def isWhiteSpace_def)
  have d: "normalize [0x61, 0x0A, 0x20, 0x0A, 0x0A, 0x62] = [0x61, 0x0A, 0x0A, 0x0A, 0x62]"
    by (simp add: normalize_def removeInvisible_def isInvisible_def stripSingleBlankLine_def
          isHorizontal_def lineEnd_def isLineTerminator_def isWhiteSpace_def)
  from a b c d show ?thesis by simp
qed

text \<open>
  C7. The Python text of four lines, a line of three double quotes, \<^verbatim>\<open>debug notes\<close>, a
  line of three double quotes and \<^verbatim>\<open>print("hi")\<close>, is cleaned to the empty text, with
  or without a line feed after its last line: the print pattern removes the call, the
  double-quote pattern, the last of the table, removes the block.
\<close>

theorem removePatterns_docstring_example:
  "removePatterns ([0x22, 0x22, 0x22, 0x0A] @ js ''debug notes'' @ [0x0A, 0x22, 0x22, 0x22, 0x0A]
                   @ js ''print('' @ [0x22] @ js ''hi'' @ [0x22] @ js '')'') (js ''python'') = []
   \<and> removePatterns ([0x22, 0x22, 0x22, 0x0A] @ js ''debug notes'' @ [0x0A, 0x22, 0x22, 0x22, 0x0A]
                     @ js ''print('' @ [0x22] @ js ''hi'' @ [0x22] @ js '')'' @ [0x0A])
        (js ''python'') = []"
proof -
  have a: "removePatterns ([0x22, 0x22, 0x22, 0x0A] @ js ''debug notes''
              @ [0x0A, 0x22, 0x22, 0x22, 0x0A] @ js ''print('' @ [0x22] @ js ''hi'' @ [0x22]
              @ js '')'') (js ''python'') = []"
    by (simp add: removePatterns_def table_defs run_defs)
  have b: "removePatterns ([0x22, 0x22, 0x22, 0x0A] @ js ''debug notes''
              @ [0x0A, 0x22, 0x22, 0x22, 0x0A] @ js ''print('' @ [0x22] @ js ''hi'' @ [0x22]
              @ js '')'' @ [0x0A]) (js ''python'') = []"
    by (simp add: removePatterns_def table_defs run_defs)
  from a b show ?thesis by simp
qed

text \<open>
  C8, as the code has it. Step 5 removes, once, the longest run of whitespace at the
  start of the text that ends with a line feed, that is, every leading blank line: a text
  \<open>w @ 0x0A # rest\<close>, with \<open>w\<close> whitespace and no line feed in the whitespace that
  \<open>rest\<close> begins with, becomes \<open>rest\<close>, and a text with no line feed in the whitespace
  it begins with is left as it is. Every text has one of the two forms.
\<close>

theorem stripLeadingBlankLine_blank_lines:
  "((\<forall>c \<in> set w. isWhiteSpace c) \<and> 0x0A \<notin> set (takeWhile isWhiteSpace rest)
      \<longrightarrow> stripLeadingBlankLine (w @ 0x0A # rest) = rest)
   \<and> (0x0A \<notin> set (takeWhile isWhiteSpace t) \<longrightarrow> stripLeadingBlankLine t = t)
   \<and> ((\<exists>w rest. t = w @ 0x0A # rest \<and> (\<forall>c \<in> set w. isWhiteSpace c)
          \<and> 0x0A \<notin> set (takeWhile isWhiteSpace rest))
        \<or> 0x0A \<notin> set (takeWhile isWhiteSpace t))"
proof -
  have g: "\<not> global leadingBlankLine" by (simp add: leadingBlankLine_def RegExp_def)
  have "(\<forall>c \<in> set w. isWhiteSpace c) \<and> 0x0A \<notin> set (takeWhile isWhiteSpace rest)
          \<longrightarrow> stripLeadingBlankLine (w @ 0x0A # rest) = rest"
    by (simp add: stripLeadingBlankLine_def replace_def g exec_leading blank_some)
  moreover have "0x0A \<notin> set (takeWhile isWhiteSpace t) \<longrightarrow> stripLeadingBlankLine t = t"
    by (simp add: stripLeadingBlankLine_def replace_def g exec_leading blank_none)
  ultimately show ?thesis using leading_forms[of t] by blast
qed

theorem stripLeadingBlankLine_blank_lines_witness:
  "stripLeadingBlankLine ([0x20, 0x0A, 0x09] @ 0x0A # js ''  x'') = js ''  x''
   \<and> stripLeadingBlankLine (js ''  x'' @ [0x0A]) = js ''  x'' @ [0x0A]"
proof -
  have a: "(\<forall>c \<in> set [0x20, 0x0A, 0x09]. isWhiteSpace c)
           \<and> 0x0A \<notin> set (takeWhile isWhiteSpace (js ''  x''))"
    by (simp add: isWhiteSpace_def js_def)
  have b: "0x0A \<notin> set (takeWhile isWhiteSpace (js ''  x'' @ [0x0A]))"
    by (simp add: isWhiteSpace_def js_def)
  from stripLeadingBlankLine_blank_lines[of "[0x20, 0x0A, 0x09]" "js ''  x''" "js ''  x'' @ [0x0A]"] a b
  show ?thesis by blast
qed

text \<open>
  C8 as stated fails: of the text of two line feeds and \<^verbatim>\<open>x\<close>, which begins with two
  blank lines, step 5 leaves \<^verbatim>\<open>x\<close>, not a line feed and \<^verbatim>\<open>x\<close>; the clean path does
  the same for a language without removal patterns.
\<close>

theorem stripLeadingBlankLine_two_lines:
  "stripLeadingBlankLine [0x0A, 0x0A, 0x78] = [0x78]
   \<and> removePatterns [0x0A, 0x0A, 0x78] (js ''plaintext'') = [0x78]"
  by (simp add: stripLeadingBlankLine_def removePatterns_def table_defs run_defs)

text \<open>
  C9. \<^verbatim>\<open>getRangesForPatterns\<close> sets the cursor of a pattern to 0 before it scans with
  it. So an invocation on the table as an earlier invocation left it returns the ranges
  and the table of the earlier one, and the ranges do not depend on the cursors the
  patterns arrive with.
\<close>

theorem getRangesForPatterns_repeatable:
  "(getRangesForPatterns positionAt t pts languageId = Some (rs, pts')
      \<longrightarrow> getRangesForPatterns positionAt t pts' languageId = Some (rs, pts'))
   \<and> map_option fst (getRangesForPatterns positionAt t
                        (map (\<lambda>pt. pt\<lparr>regex := (regex pt)\<lparr>lastIndex := c pt\<rparr>\<rparr>) pts) languageId)
       = map_option fst (getRangesForPatterns positionAt t pts languageId)"
  using forEachPattern_again[of positionAt t languageId pts "[]" rs pts']
    forEachPattern_cursors[of positionAt t languageId c pts "[]"]
  by (simp add: getRangesForPatterns_def)

theorem getRangesForPatterns_repeatable_witness:
  "\<exists>pts'. getRangesForPatterns (\<lambda>i. i) (js ''// a'') commentPatterns (js ''javascript'')
             = Some ([(0, 4)], pts')
          \<and> getRangesForPatterns (\<lambda>i. i) (js ''// a'') pts' (js ''javascript'')
             = Some ([(0, 4)], pts')"
proof -
  have "\<exists>pts'. getRangesForPatterns (\<lambda>i. i) (js ''// a'') commentPatterns (js ''javascript'')
                  = Some ([(0, 4)], pts')"
    by (simp add: highlight_defs table_defs run_defs)
  then obtain pts' where
    e: "getRangesForPatterns (\<lambda>i. i) (js ''// a'') commentPatterns (js ''javascript'')
          = Some ([(0, 4)], pts')"
    by blast
  with getRangesForPatterns_repeatable
         [of "\<lambda>i. i" "js ''// a''" commentPatterns "js ''javascript''" "[(0, 4)]" pts']
  show ?thesis by blast
qed

text \<open>
  C10. The identifiers \<^verbatim>\<open>javascript\<close> and \<^verbatim>\<open>typescript\<close> are interchangeable: every
  entry of the three tables applies to both or to neither, so the clean path returns the
  same text and the highlight path the same ranges for the two.
\<close>

theorem javascript_typescript:
  "removePatterns t (js ''javascript'') = removePatterns t (js ''typescript'')
   \<and> highlightPatterns positionAt t (js ''javascript'')
       = highlightPatterns positionAt t (js ''typescript'')
   \<and> (\<forall>pt \<in> set (removalPatterns @ printPatterns @ commentPatterns).
        applies pt (js ''javascript'') = applies pt (js ''typescript''))"
proof -
  have a: "\<forall>pt \<in> set (removalPatterns @ printPatterns @ commentPatterns).
              applies pt (js ''javascript'') = applies pt (js ''typescript'')"
    by (simp add: applies_def table_defs)
  have "removePatterns t (js ''javascript'') = removePatterns t (js ''typescript'')"
    by (simp add: removePatterns_def applyPatterns_def applies_def table_defs)
  moreover have "getRangesForPatterns positionAt t pts (js ''javascript'')
                   = getRangesForPatterns positionAt t pts (js ''typescript'')"
    if "pts = printPatterns \<or> pts = commentPatterns" for pts
    unfolding getRangesForPatterns_def
    using a that by (intro forEachPattern_language) auto
  then have "highlightPatterns positionAt t (js ''javascript'')
               = highlightPatterns positionAt t (js ''typescript'')"
    by (simp add: highlightPatterns_def cong: option.case_cong)
  ultimately show ?thesis using a by blast
qed

theorem javascript_typescript_witness:
  "hd removalPatterns \<in> set (removalPatterns @ printPatterns @ commentPatterns)
   \<and> applies (hd removalPatterns) (js ''javascript'')
   \<and> applies (hd removalPatterns) (js ''typescript'')
   \<and> removePatterns (js ''console.log(1);'') (js ''typescript'') = []"
proof -
  have m: "hd removalPatterns \<in> set (removalPatterns @ printPatterns @ commentPatterns)"
    by (simp add: removalPatterns_def)
  have a: "applies (hd removalPatterns) (js ''javascript'')"
    by (simp add: applies_def table_defs)
  have r: "removePatterns (js ''console.log(1);'') (js ''javascript'') = []"
    by (simp add: removePatterns_def table_defs run_defs)
  from javascript_typescript[of "js ''console.log(1);''" "\<lambda>i. i"] m a r
  show ?thesis by auto
qed

end
